theory Spec2Isabelle
  imports Complex_Main "HOL-Library.Multiset" "HOL-Library.Sublist"
begin

section \<open>Load balancing and process allocation (load\_balancer.py)\<close>

text \<open>
  A shallow embedding of the allocation half of \<^verbatim>\<open>load_balancer.py\<close>: the dataclasses
  \<^verbatim>\<open>Node\<close> and \<^verbatim>\<open>Process\<close>, and the class \<^verbatim>\<open>ProcessAllocator\<close>.

  Conventions of the embedding.
  \<^item> Python's \<^verbatim>\<open>int\<close> is \<open>int\<close>. Python's \<^verbatim>\<open>float\<close> is \<open>rat\<close>: the arithmetic
    is the exact one, without rounding, and the literals \<^verbatim>\<open>0.6\<close>, \<^verbatim>\<open>30.0\<close>, ... are the
    rationals they denote.
  \<^item> A \<^verbatim>\<open>str\<close> is a \<open>string\<close> whose characters are the code points 0..255.
  \<^item> A \<^verbatim>\<open>dict\<close> is an association list in insertion order, which is the order
    \<^verbatim>\<open>.items()\<close> iterates in. A dict has no repeated key; where a property depends on
    that, it is the hypothesis \<open>distinct (map fst nodes)\<close>. Each key of the registry
    holds a \<^verbatim>\<open>Node\<close> object of its own, as in \<^verbatim>\<open>LoadBalancer.__init__\<close>.
  \<^item> The mutable object \<^verbatim>\<open>self\<close> is a record that each method takes and returns.
  \<^item> An exception is a value \<open>Inl e\<close>; the \<^verbatim>\<open>print\<close> calls are left out.
\<close>

subsection \<open>Data\<close>

record Node =
  name :: string
  latency :: int
  throughput :: int
  packet_loss :: rat
  cpu :: int
  memory :: rat
  services :: "string list"

record Process =
  process_id :: string
  cpu_requirement :: int
  memory_requirement :: rat
  service_type :: string
  priority :: int

datatype error = KeyError

record ProcessAllocator =
  nodes :: "(string \<times> Node) list"
  allocations :: "(string \<times> Process list) list"

subsection \<open>Node\<close>

definition calculate_load_score :: "Node \<Rightarrow> rat" where
  "calculate_load_score self =
     (let cpu_weight = 6 / 10;
          memory_weight = 3 / 10;
          latency_weight = 1 / 10
      in (of_int (cpu self) / 100) * cpu_weight +
         (memory self / 20) * memory_weight +
         (of_int (latency self) / 30) * latency_weight)"

definition has_capacity :: "Node \<Rightarrow> int \<Rightarrow> rat \<Rightarrow> bool" where
  "has_capacity self cpu_needed memory_needed \<longleftrightarrow>
     cpu self + cpu_needed \<le> 90 \<and> memory self + memory_needed \<le> 18"

subsection \<open>Strings\<close>

text \<open>
  \<^verbatim>\<open>str.lower()\<close> on the code points 0..255: the letters A..Z, and the Latin-1 capitals
  192..222 other than the multiplication sign 215, move up by 32.
\<close>

definition lower_char :: "char \<Rightarrow> char" where
  "lower_char c =
     (let k = (of_char c :: nat)
      in if (65 \<le> k \<and> k \<le> 90) \<or> (192 \<le> k \<and> k \<le> 222 \<and> k \<noteq> 215)
         then char_of (k + 32) else c)"

definition lower :: "string \<Rightarrow> string" where
  "lower s = map lower_char s"

text \<open>\<^verbatim>\<open>a in b\<close> on two strings is \<^term>\<open>sublist a b\<close>: \<open>a\<close> occurs in \<open>b\<close> contiguously.\<close>

subsection \<open>ProcessAllocator\<close>

definition ProcessAllocator_init :: "(string \<times> Node) list \<Rightarrow> ProcessAllocator" where
  "ProcessAllocator_init ns =
     \<lparr>nodes = ns, allocations = map (\<lambda>(nm, _). (nm, [])) ns\<rparr>"

text \<open>The local \<^verbatim>\<open>service_match\<close> of \<^verbatim>\<open>_allocate_single_process\<close>.\<close>

definition service_match :: "Node \<Rightarrow> Process \<Rightarrow> bool" where
  "service_match node process \<longleftrightarrow>
     list_ex (\<lambda>svc. sublist svc (lower (service_type process)))
       (map lower (services node))"

text \<open>The local \<^verbatim>\<open>placement_score\<close>; lower is better.\<close>

definition placement_score :: "Node \<Rightarrow> Process \<Rightarrow> rat" where
  "placement_score node process =
     (let load_score = calculate_load_score node;
          latency_score = of_int (latency node) / 30
      in load_score * (5 / 10) + latency_score * (3 / 10) +
         (if service_match node process then 0 else 2 / 10))"

text \<open>The first loop: the nodes that pass the capacity check, each with its score.\<close>

fun candidates :: "(string \<times> Node) list \<Rightarrow> Process \<Rightarrow> (string \<times> Node \<times> rat) list" where
  "candidates [] process = []"
| "candidates ((nm, node) # rest) process =
     (if \<not> has_capacity node (cpu_requirement process) (memory_requirement process)
      then candidates rest process
      else (nm, node, placement_score node process) # candidates rest process)"

text \<open>
  \<^verbatim>\<open>min(candidates, key=...)\<close> on a non-empty list: the first element whose key is
  minimal, so the running best is replaced only by a strictly smaller key.
\<close>

fun min_key :: "('a \<Rightarrow> rat) \<Rightarrow> 'a \<Rightarrow> 'a list \<Rightarrow> 'a" where
  "min_key key best [] = best"
| "min_key key best (x # xs) =
     (if key x < key best then min_key key x xs else min_key key best xs)"

text \<open>
  \<^verbatim>\<open>best_node.cpu += ...; best_node.memory += ...\<close>: the node object held under the
  chosen key is updated in place.
\<close>

definition commit :: "string \<Rightarrow> Process \<Rightarrow> (string \<times> Node) list \<Rightarrow> (string \<times> Node) list" where
  "commit best_node_name process ns =
     map (\<lambda>(nm, node).
            if nm = best_node_name
            then (nm, node\<lparr>cpu := cpu node + cpu_requirement process,
                            memory := memory node + memory_requirement process\<rparr>)
            else (nm, node)) ns"

text \<open>\<^verbatim>\<open>self.allocations[best_node_name].append(process)\<close>; a missing key raises.\<close>

definition record_allocation ::
  "string \<Rightarrow> Process \<Rightarrow> (string \<times> Process list) list \<Rightarrow> error + (string \<times> Process list) list" where
  "record_allocation best_node_name process allocs =
     (if best_node_name \<in> set (map fst allocs)
      then Inr (map (\<lambda>(nm, ps). if nm = best_node_name then (nm, ps @ [process]) else (nm, ps))
                  allocs)
      else Inl KeyError)"

text \<open>
  \<^verbatim>\<open>_allocate_single_process\<close>: returns the new allocator and the method's return
  value, \<open>Some\<close> of the chosen key or \<open>None\<close>.
\<close>

definition allocate_single_process ::
  "ProcessAllocator \<Rightarrow> Process \<Rightarrow> error + (ProcessAllocator \<times> string option)" where
  "allocate_single_process self process =
     (case candidates (nodes self) process of
        [] \<Rightarrow> Inr (self, None)
      | c # cs \<Rightarrow>
          (let best_node_name = fst (min_key (\<lambda>x. snd (snd x)) c cs);
               nodes' = commit best_node_name process (nodes self)
           in case record_allocation best_node_name process (allocations self) of
                Inl e \<Rightarrow> Inl e
              | Inr allocs' \<Rightarrow>
                  Inr (\<lparr>nodes = nodes', allocations = allocs'\<rparr>, Some best_node_name)))"

text \<open>
  \<^verbatim>\<open>sorted(processes, key=lambda p: p.priority, reverse=True)\<close>: a stable sort in
  descending priority (with \<^verbatim>\<open>reverse=True\<close> equal keys keep their input order).
\<close>

definition sorted_processes :: "Process list \<Rightarrow> Process list" where
  "sorted_processes processes = sort_key (\<lambda>p. - priority p) processes"

text \<open>
  The loop of \<^verbatim>\<open>allocate_processes\<close> over the sorted list. Beside the allocator it
  returns, in the order of the attempts, each process with what
  \<^verbatim>\<open>_allocate_single_process\<close> returned for it (the loop prints one line from each).
  The method itself returns \<^verbatim>\<open>self.allocations\<close>, the field \<open>allocations\<close> of the
  allocator returned here; the registry it has mutated is the field \<open>nodes\<close>.
\<close>

fun allocate_loop ::
  "ProcessAllocator \<Rightarrow> Process list \<Rightarrow> error + (ProcessAllocator \<times> (Process \<times> string option) list)" where
  "allocate_loop self [] = Inr (self, [])"
| "allocate_loop self (process # rest) =
     (case allocate_single_process self process of
        Inl e \<Rightarrow> Inl e
      | Inr (self', allocated) \<Rightarrow>
          (case allocate_loop self' rest of
             Inl e \<Rightarrow> Inl e
           | Inr (self'', outcomes) \<Rightarrow> Inr (self'', (process, allocated) # outcomes)))"

definition allocate_processes ::
  "ProcessAllocator \<Rightarrow> Process list \<Rightarrow> error + (ProcessAllocator \<times> (Process \<times> string option) list)" where
  "allocate_processes self processes = allocate_loop self (sorted_processes processes)"

subsection \<open>The data set of LoadBalancer\<close>

definition LoadBalancer_nodes :: "(string \<times> Node) list" where
  "LoadBalancer_nodes =
     [(''EdgeA'', \<lparr>name = ''EdgeA'', latency = 10, throughput = 520, packet_loss = 3 / 10,
                  cpu = 40, memory = 4, services = [''RPCCall'', ''DataReplication'']\<rparr>),
      (''EdgeB'', \<lparr>name = ''EdgeB'', latency = 14, throughput = 470, packet_loss = 5 / 10,
                  cpu = 48, memory = 5, services = [''RPCCall'', ''Migration'']\<rparr>),
      (''CoreX'', \<lparr>name = ''CoreX'', latency = 7, throughput = 980, packet_loss = 1 / 10,
                  cpu = 65, memory = 8, services = [''TransactionCommit'']\<rparr>),
      (''CoreY'', \<lparr>name = ''CoreY'', latency = 9, throughput = 950, packet_loss = 2 / 10,
                  cpu = 58, memory = 7, services = [''Recovery'', ''LoadBalancing'']\<rparr>),
      (''CloudZ'', \<lparr>name = ''CloudZ'', latency = 22, throughput = 1250, packet_loss = 4 / 10,
                   cpu = 72, memory = 16, services = [''Analytics'', ''RPCCall'']\<rparr>)]"

definition generate_sample_processes :: "Process list" where
  "generate_sample_processes =
     [\<lparr>process_id = ''P1_Analytics'', cpu_requirement = 15, memory_requirement = 2,
       service_type = ''Analytics'', priority = 3\<rparr>,
      \<lparr>process_id = ''P2_RPC_Handler'', cpu_requirement = 10, memory_requirement = 3 / 2,
       service_type = ''RPCCall'', priority = 3\<rparr>,
      \<lparr>process_id = ''P3_DataRepl'', cpu_requirement = 12, memory_requirement = 5 / 2,
       service_type = ''DataReplication'', priority = 2\<rparr>,
      \<lparr>process_id = ''P4_Transaction'', cpu_requirement = 18, memory_requirement = 3,
       service_type = ''TransactionCommit'', priority = 3\<rparr>,
      \<lparr>process_id = ''P5_Recovery'', cpu_requirement = 8, memory_requirement = 1,
       service_type = ''Recovery'', priority = 2\<rparr>,
      \<lparr>process_id = ''P6_LoadBal'', cpu_requirement = 10, memory_requirement = 3 / 2,
       service_type = ''LoadBalancing'', priority = 2\<rparr>,
      \<lparr>process_id = ''P7_Migration'', cpu_requirement = 14, memory_requirement = 2,
       service_type = ''Migration'', priority = 1\<rparr>,
      \<lparr>process_id = ''P8_RPC_Handler2'', cpu_requirement = 10, memory_requirement = 3 / 2,
       service_type = ''RPCCall'', priority = 2\<rparr>,
      \<lparr>process_id = ''P9_Analytics2'', cpu_requirement = 12, memory_requirement = 2,
       service_type = ''Analytics'', priority = 1\<rparr>,
      \<lparr>process_id = ''P10_Monitor'', cpu_requirement = 5, memory_requirement = 1 / 2,
       service_type = ''Monitoring'', priority = 1\<rparr>]"

subsection \<open>Predicates of the specification\<close>

text \<open>
  The allocation map has the keys of the registry, in the same order. \<^verbatim>\<open>__init__\<close>
  establishes it and no method changes a key.
\<close>

definition keys_agree :: "ProcessAllocator \<Rightarrow> bool" where
  "keys_agree self \<longleftrightarrow> map fst (allocations self) = map fst (nodes self)"

text \<open>The capacity gate of a workload, as a predicate on nodes.\<close>

definition passes_gate :: "Process \<Rightarrow> Node \<Rightarrow> bool" where
  "passes_gate process node \<longleftrightarrow>
     has_capacity node (cpu_requirement process) (memory_requirement process)"

text \<open>The capacity ceiling of a node.\<close>

definition within_capacity :: "Node \<Rightarrow> bool" where
  "within_capacity node \<longleftrightarrow> cpu node \<le> 90 \<and> memory node \<le> 18"

text \<open>The workloads of an attempt list that were placed, and those that were not.\<close>

definition placed :: "(Process \<times> string option) list \<Rightarrow> Process list" where
  "placed outcomes = map fst (filter (\<lambda>(p, r). r \<noteq> None) outcomes)"

definition unplaced :: "(Process \<times> string option) list \<Rightarrow> Process list" where
  "unplaced outcomes = map fst (filter (\<lambda>(p, r). r = None) outcomes)"

text \<open>Two nodes are the same but for \<open>cpu\<close> and \<open>memory\<close>.\<close>

definition same_static :: "Node \<Rightarrow> Node \<Rightarrow> bool" where
  "same_static n n' \<longleftrightarrow>
     name n' = name n \<and> latency n' = latency n \<and> throughput n' = throughput n \<and>
     packet_loss n' = packet_loss n \<and> services n' = services n"

text \<open>
  The service bonus as the specification words it: 0 when the workload's service type,
  without regard to case, contains or is contained by one of the node's service names,
  and 0.2 otherwise; and the placement score with that bonus.
\<close>

definition claimed_service_bonus :: "Node \<Rightarrow> Process \<Rightarrow> rat" where
  "claimed_service_bonus node process =
     (if list_ex (\<lambda>svc. sublist (lower svc) (lower (service_type process)) \<or>
                        sublist (lower (service_type process)) (lower svc))
           (services node)
      then 0 else 2 / 10)"

definition claimed_placement_score :: "Node \<Rightarrow> Process \<Rightarrow> rat" where
  "claimed_placement_score node process =
     calculate_load_score node * (5 / 10) + (of_int (latency node) / 30) * (3 / 10) +
     claimed_service_bonus node process"

subsection \<open>Example inputs\<close>

text \<open>The node \<^verbatim>\<open>EdgeA\<close> of the data set.\<close>

definition EdgeA :: Node where
  "EdgeA = \<lparr>name = ''EdgeA'', latency = 10, throughput = 520, packet_loss = 3 / 10,
            cpu = 40, memory = 4, services = [''RPCCall'', ''DataReplication'']\<rparr>"

text \<open>A workload whose service type is a proper part of the service name \<^verbatim>\<open>RPCCall\<close>.\<close>

definition rpc_process :: Process where
  "rpc_process = \<lparr>process_id = ''P_RPC'', cpu_requirement = 10, memory_requirement = 3 / 2,
                  service_type = ''RPC'', priority = 2\<rparr>"

text \<open>A workload that no node of the data set has room for.\<close>

definition heavy_process :: Process where
  "heavy_process = \<lparr>process_id = ''P_Heavy'', cpu_requirement = 60, memory_requirement = 1,
                    service_type = ''Analytics'', priority = 3\<rparr>"

text \<open>The first and the last workload of the sample batch.\<close>

definition P1_Analytics :: Process where
  "P1_Analytics = \<lparr>process_id = ''P1_Analytics'', cpu_requirement = 15, memory_requirement = 2,
                   service_type = ''Analytics'', priority = 3\<rparr>"

definition P10_Monitor :: Process where
  "P10_Monitor = \<lparr>process_id = ''P10_Monitor'', cpu_requirement = 5, memory_requirement = 1 / 2,
                  service_type = ''Monitoring'', priority = 1\<rparr>"

section \<open>Properties\<close>

subsection \<open>Candidates and the minimum\<close>

lemma candidates_map_filter:
  "candidates ns p =
     map (\<lambda>(nm, n). (nm, n, placement_score n p))
       (filter (\<lambda>(nm, n). has_capacity n (cpu_requirement p) (memory_requirement p)) ns)"
  by (induction ns p rule: candidates.induct) simp_all

lemma candidates_mem:
  "(nm, n, s) \<in> set (candidates ns p) \<longleftrightarrow>
     (nm, n) \<in> set ns \<and> has_capacity n (cpu_requirement p) (memory_requirement p) \<and>
     s = placement_score n p"
  by (auto simp: candidates_map_filter)

lemma candidates_Nil:
  "candidates ns p = [] \<longleftrightarrow>
     (\<forall>(nm, n) \<in> set ns. \<not> has_capacity n (cpu_requirement p) (memory_requirement p))"
  by (auto simp: candidates_map_filter filter_empty_conv)

lemma min_key_mem: "min_key key b xs \<in> set (b # xs)"
  by (induction xs arbitrary: b) auto

lemma min_key_le: "x \<in> set (b # xs) \<Longrightarrow> key (min_key key b xs) \<le> key x"
proof (induction xs arbitrary: b x)
  case Nil
  then show ?case by simp
next
  case (Cons y ys)
  show ?case
  proof (cases "key y < key b")
    case True
    have "x = b \<or> x \<in> set (y # ys)" using Cons.prems by auto
    then show ?thesis
    proof
      assume "x = b"
      have "key (min_key key y ys) \<le> key y" using Cons.IH [of y y] by simp
      with True \<open>x = b\<close> show ?thesis by simp
    next
      assume "x \<in> set (y # ys)"
      then show ?thesis using True Cons.IH [of x y] by simp
    qed
  next
    case False
    have "x = y \<or> x \<in> set (b # ys)" using Cons.prems by auto
    then show ?thesis
    proof
      assume "x = y"
      have "key (min_key key b ys) \<le> key b" using Cons.IH [of b b] by simp
      with False \<open>x = y\<close> show ?thesis by simp
    next
      assume "x \<in> set (b # ys)"
      then show ?thesis using False Cons.IH [of x b] by simp
    qed
  qed
qed

subsection \<open>One call of allocate\_single\_process\<close>

lemma step_unplaced:
  "candidates (nodes self) p = [] \<Longrightarrow> allocate_single_process self p = Inr (self, None)"
  by (simp add: allocate_single_process_def)

lemma map_fst_commit: "map fst (commit b p ns) = map fst ns"
  by (induction ns) (auto simp: commit_def)

lemma step_cases:
  assumes "allocate_single_process self p = Inr (self', r)"
  shows "(r = None \<and> self' = self \<and> candidates (nodes self) p = []) \<or>
         (\<exists>b n. r = Some b \<and> (b, n) \<in> set (nodes self) \<and> passes_gate p n \<and>
            (\<forall>(nm', n') \<in> set (nodes self).
               passes_gate p n' \<longrightarrow> placement_score n p \<le> placement_score n' p) \<and>
            b \<in> set (map fst (allocations self)) \<and>
            nodes self' = commit b p (nodes self) \<and>
            allocations self' =
              map (\<lambda>(nm, ps). if nm = b then (nm, ps @ [p]) else (nm, ps)) (allocations self))"
proof (cases "candidates (nodes self) p")
  case Nil
  with assms show ?thesis by (simp add: allocate_single_process_def)
next
  case (Cons c cs)
  define m where "m = min_key (\<lambda>x. snd (snd x)) c cs"
  obtain b n s where m: "m = (b, n, s)" by (cases m) auto
  have mem: "(b, n, s) \<in> set (candidates (nodes self) p)"
    using min_key_mem [of "\<lambda>x. snd (snd x)" c cs] by (simp add: Cons m_def [symmetric] m)
  then have in_nodes: "(b, n) \<in> set (nodes self)" and gate: "passes_gate p n"
    and s: "s = placement_score n p"
    by (simp_all add: candidates_mem passes_gate_def)
  have least: "placement_score n p \<le> placement_score n' p"
    if "(nm', n') \<in> set (nodes self)" "passes_gate p n'" for nm' n'
  proof -
    have "(nm', n', placement_score n' p) \<in> set (c # cs)"
      using that by (simp add: Cons [symmetric] candidates_mem passes_gate_def)
    from min_key_le [OF this, of "\<lambda>x. snd (snd x)"] show ?thesis
      by (simp add: m_def [symmetric] m s)
  qed
  have b: "fst (min_key (\<lambda>x. snd (snd x)) c cs) = b"
    by (simp add: m_def [symmetric] m)
  from assms have key: "b \<in> set (map fst (allocations self))"
    and r: "r = Some b"
    and self': "self' = \<lparr>nodes = commit b p (nodes self),
       allocations = map (\<lambda>(nm, ps). if nm = b then (nm, ps @ [p]) else (nm, ps))
         (allocations self)\<rparr>"
    by (auto simp: allocate_single_process_def Cons b Let_def record_allocation_def
        split: if_splits)
  show ?thesis
    using r in_nodes gate least key self' by auto
qed

lemma step_total:
  assumes "keys_agree self"
  shows "\<exists>self' r. allocate_single_process self p = Inr (self', r)"
proof (cases "candidates (nodes self) p")
  case Nil
  then show ?thesis by (simp add: allocate_single_process_def)
next
  case (Cons c cs)
  define m where "m = min_key (\<lambda>x. snd (snd x)) c cs"
  obtain b n s where m: "m = (b, n, s)" by (cases m) auto
  have "(b, n, s) \<in> set (candidates (nodes self) p)"
    using min_key_mem [of "\<lambda>x. snd (snd x)" c cs] by (simp add: Cons m_def [symmetric] m)
  then have "(b, n) \<in> set (nodes self)" by (simp add: candidates_mem)
  then have "b \<in> set (map fst (nodes self))" by force
  then have "b \<in> set (map fst (allocations self))"
    using assms by (simp add: keys_agree_def)
  then show ?thesis
    by (simp add: allocate_single_process_def Cons m_def [symmetric] m Let_def
        record_allocation_def)
qed

lemma map_fst_append_alloc:
  "map fst (map (\<lambda>(nm, ps). if nm = b then (nm, ps @ [p]) else (nm, ps)) al) = map fst al"
  by (induction al) auto

lemma step_keys:
  assumes "allocate_single_process self p = Inr (self', r)"
  shows "map fst (nodes self') = map fst (nodes self) \<and>
         map fst (allocations self') = map fst (allocations self)"
  using step_cases [OF assms]
  by (auto simp: map_fst_commit map_fst_append_alloc)

lemma step_keys_agree:
  assumes "allocate_single_process self p = Inr (self', r)" and "keys_agree self"
  shows "keys_agree self'"
  using step_keys [OF assms(1)] assms(2) by (simp add: keys_agree_def)

subsection \<open>The loop of allocate\_processes\<close>

lemma loop_Cons:
  assumes "allocate_loop self (p # ps) = Inr (s, out)"
  shows "\<exists>s1 r out'. allocate_single_process self p = Inr (s1, r) \<and>
           allocate_loop s1 ps = Inr (s, out') \<and> out = (p, r) # out'"
  using assms by (simp split: sum.splits prod.splits)

lemma loop_total:
  "keys_agree self \<Longrightarrow> \<exists>s out. allocate_loop self ps = Inr (s, out)"
proof (induction ps arbitrary: self)
  case Nil
  show ?case by simp
next
  case (Cons p ps)
  from step_total [OF Cons.prems] obtain s1 r
    where step: "allocate_single_process self p = Inr (s1, r)" by blast
  from step_keys_agree [OF step Cons.prems] have "keys_agree s1" .
  from Cons.IH [OF this] obtain s out where "allocate_loop s1 ps = Inr (s, out)" by blast
  with step show ?case by simp
qed

lemma loop_invariant:
  assumes "allocate_loop self ps = Inr (s, out)"
    and "I self"
    and "\<And>a p a' r. I a \<Longrightarrow> p \<in> set ps \<Longrightarrow> allocate_single_process a p = Inr (a', r) \<Longrightarrow> I a'"
  shows "I s"
  using assms
proof (induction ps arbitrary: self out)
  case Nil
  then show ?case by simp
next
  case (Cons p ps)
  from loop_Cons [OF Cons.prems(1)] obtain s1 r out'
    where step: "allocate_single_process self p = Inr (s1, r)"
      and rest: "allocate_loop s1 ps = Inr (s, out')" by blast
  have s1: "I s1" by (rule Cons.prems(3) [OF Cons.prems(2) _ step]) simp
  show ?case
  proof (rule Cons.IH [OF rest s1])
    fix a q a' r'
    assume "I a" and "q \<in> set ps" and "allocate_single_process a q = Inr (a', r')"
    then show "I a'" using Cons.prems(3) [of a q a' r'] by simp
  qed
qed

lemma loop_attempts: "allocate_loop self ps = Inr (s, out) \<Longrightarrow> map fst out = ps"
proof (induction ps arbitrary: self out)
  case Nil
  then show ?case by simp
next
  case (Cons p ps)
  from loop_Cons [OF Cons.prems] obtain s1 r out'
    where "allocate_loop s1 ps = Inr (s, out')" and "out = (p, r) # out'" by blast
  then show ?case using Cons.IH by simp
qed

lemma loop_append:
  "allocate_loop self (xs @ ys) =
     (case allocate_loop self xs of
        Inl e \<Rightarrow> Inl e
      | Inr (s1, out1) \<Rightarrow>
          (case allocate_loop s1 ys of
             Inl e \<Rightarrow> Inl e
           | Inr (s2, out2) \<Rightarrow> Inr (s2, out1 @ out2)))"
  by (induction xs arbitrary: self) (auto split: sum.splits prod.splits)

lemma loop_keys:
  assumes "allocate_loop self ps = Inr (s, out)"
  shows "map fst (nodes s) = map fst (nodes self) \<and>
         map fst (allocations s) = map fst (allocations self)"
proof -
  let ?I = "\<lambda>a. map fst (nodes a) = map fst (nodes self) \<and>
                map fst (allocations a) = map fst (allocations self)"
  show ?thesis
  proof (rule loop_invariant [OF assms, where I = ?I])
    show "?I self" by simp
  next
    fix a p a' r
    assume "?I a" and "allocate_single_process a p = Inr (a', r)"
    then show "?I a'" using step_keys [of a p a' r] by simp
  qed
qed

lemma loop_allocations:
  "allocate_loop self ps = Inr (s, out) \<Longrightarrow>
     allocations s =
       map (\<lambda>(nm, l). (nm, l @ map fst (filter (\<lambda>(p, r). r = Some nm) out)))
         (allocations self)"
proof (induction ps arbitrary: self out)
  case Nil
  then show ?case by (simp add: case_prod_unfold)
next
  case (Cons p ps)
  from loop_Cons [OF Cons.prems] obtain s1 r out'
    where step: "allocate_single_process self p = Inr (s1, r)"
      and rest: "allocate_loop s1 ps = Inr (s, out')"
      and out: "out = (p, r) # out'" by blast
  note IH = Cons.IH [OF rest]
  from step_cases [OF step] show ?case
  proof (elim disjE conjE exE)
    assume "r = None" "s1 = self"
    then show ?thesis using IH out by simp
  next
    fix b n
    assume "r = Some b"
      and "allocations s1 =
        map (\<lambda>(nm, ps). if nm = b then (nm, ps @ [p]) else (nm, ps)) (allocations self)"
    then show ?thesis using IH out by (auto simp: case_prod_unfold)
  qed
qed

lemma loop_keys_agree:
  assumes "allocate_loop self ps = Inr (s, out)" and "keys_agree self"
  shows "keys_agree s"
  using assms by (rule loop_invariant) (rule step_keys_agree)

lemma loop_split:
  assumes "keys_agree self"
  shows "\<exists>s1 out1 s out2.
           allocate_loop self before = Inr (s1, out1) \<and>
           allocate_loop s1 after = Inr (s, out2) \<and>
           allocate_loop self (before @ after) = Inr (s, out1 @ out2) \<and>
           keys_agree s1"
proof -
  from loop_total [OF assms] obtain s1 out1
    where first: "allocate_loop self before = Inr (s1, out1)" by blast
  from loop_keys_agree [OF first assms] have keys: "keys_agree s1" .
  from loop_total [OF keys] obtain s out2
    where second: "allocate_loop s1 after = Inr (s, out2)" by blast
  from first second have "allocate_loop self (before @ after) = Inr (s, out1 @ out2)"
    by (simp add: loop_append)
  with first second keys show ?thesis by blast
qed

lemma loop_cut:
  assumes "keys_agree self"
  shows "\<exists>s1 out1 s2 r s out3.
           allocate_loop self before = Inr (s1, out1) \<and> map fst out1 = before \<and>
           allocate_single_process s1 p = Inr (s2, r) \<and>
           allocate_loop s2 after = Inr (s, out3) \<and> map fst out3 = after \<and>
           allocate_loop self (before @ p # after) = Inr (s, out1 @ (p, r) # out3)"
proof -
  from loop_split [OF assms, of before "p # after"] obtain s1 out1 s out2
    where first: "allocate_loop self before = Inr (s1, out1)"
      and second: "allocate_loop s1 (p # after) = Inr (s, out2)"
      and whole: "allocate_loop self (before @ p # after) = Inr (s, out1 @ out2)"
    by blast
  from loop_Cons [OF second] obtain s2 r out3
    where step: "allocate_single_process s1 p = Inr (s2, r)"
      and third: "allocate_loop s2 after = Inr (s, out3)"
      and out2: "out2 = (p, r) # out3" by blast
  from loop_attempts [OF first] have a: "map fst out1 = before" .
  from loop_attempts [OF third] have b: "map fst out3 = after" .
  from whole out2
  have c: "allocate_loop self (before @ p # after) = Inr (s, out1 @ (p, r) # out3)"
    by simp
  show ?thesis
    by (rule exI [of _ s1], rule exI [of _ out1], rule exI [of _ s2], rule exI [of _ r],
        rule exI [of _ s], rule exI [of _ out3], intro conjI)
      (rule first a step third b c)+
qed

subsection \<open>A new allocator\<close>

lemma keys_agree_init: "keys_agree (ProcessAllocator_init ns)"
  by (simp add: keys_agree_def ProcessAllocator_init_def comp_def case_prod_unfold)

lemma pass_total:
  "\<exists>s out. allocate_processes (ProcessAllocator_init ns) ps = Inr (s, out)"
  unfolding allocate_processes_def by (rule loop_total [OF keys_agree_init])

text \<open>
  C9 (empty batch). A pass of a new allocator over the empty batch returns without an
  error and without an attempt; the allocator it returns is the one \<^verbatim>\<open>__init__\<close> built:
  the registry is the list of nodes it was given, unchanged in every field, and the
  allocation map has the keys of the registry, in order, each with the empty list.
\<close>

theorem empty_batch:
  "allocate_processes (ProcessAllocator_init ns) [] = Inr (ProcessAllocator_init ns, []) \<and>
   nodes (ProcessAllocator_init ns) = ns \<and>
   map fst (allocations (ProcessAllocator_init ns)) = map fst ns \<and>
   map snd (allocations (ProcessAllocator_init ns)) = replicate (length ns) []"
proof -
  have "allocate_processes (ProcessAllocator_init ns) [] = Inr (ProcessAllocator_init ns, [])"
    by (simp add: allocate_processes_def sorted_processes_def)
  moreover have "nodes (ProcessAllocator_init ns) = ns"
    by (simp add: ProcessAllocator_init_def)
  moreover have "map fst (allocations (ProcessAllocator_init ns)) = map fst ns"
    by (simp add: ProcessAllocator_init_def comp_def case_prod_unfold)
  moreover have "map snd (allocations (ProcessAllocator_init ns)) = replicate (length ns) []"
    by (induction ns) (auto simp: ProcessAllocator_init_def)
  ultimately show ?thesis by simp
qed

theorem empty_batch_witness:
  "allocate_processes (ProcessAllocator_init LoadBalancer_nodes) [] =
     Inr (ProcessAllocator_init LoadBalancer_nodes, []) \<and>
   map cpu (map snd (nodes (ProcessAllocator_init LoadBalancer_nodes))) = [40, 48, 65, 58, 72] \<and>
   allocations (ProcessAllocator_init LoadBalancer_nodes) =
     [(''EdgeA'', []), (''EdgeB'', []), (''CoreX'', []), (''CoreY'', []), (''CloudZ'', [])]"
proof -
  have "map cpu (map snd LoadBalancer_nodes) = [40, 48, 65, 58, 72]"
    by (simp add: LoadBalancer_nodes_def)
  moreover have "allocations (ProcessAllocator_init LoadBalancer_nodes) =
     [(''EdgeA'', []), (''EdgeB'', []), (''CoreX'', []), (''CoreY'', []), (''CloudZ'', [])]"
    by (simp add: ProcessAllocator_init_def LoadBalancer_nodes_def)
  ultimately show ?thesis using empty_batch [of LoadBalancer_nodes] by simp
qed

text \<open>
  C10 (the keys of the allocation map). For every registry and every batch, the pass of
  a new allocator returns without an error, and the allocation map it returns has
  exactly the keys of the registry, in the registry's order. The list under a key holds
  the workloads whose attempt returned that key, in the order of the attempts; so a node
  that no attempt returned is present with the empty list.
\<close>

theorem allocation_keys_stable:
  "\<exists>s out. allocate_processes (ProcessAllocator_init ns) ps = Inr (s, out) \<and>
     map fst (allocations s) = map fst ns \<and>
     allocations s =
       map (\<lambda>(nm, _). (nm, map fst (filter (\<lambda>(p, r). r = Some nm) out))) ns \<and>
     (\<forall>(nm, l) \<in> set (allocations s). nm \<notin> set (map (the \<circ> snd) (filter (\<lambda>(p, r). r \<noteq> None) out)) \<longrightarrow> l = [])"
proof -
  from pass_total obtain s out
    where run: "allocate_processes (ProcessAllocator_init ns) ps = Inr (s, out)" by blast
  then have loop: "allocate_loop (ProcessAllocator_init ns) (sorted_processes ps) = Inr (s, out)"
    by (simp add: allocate_processes_def)
  have keys: "map fst (allocations s) = map fst ns"
    using loop_keys [OF loop] by (simp add: ProcessAllocator_init_def comp_def case_prod_unfold)
  have lists: "allocations s =
       map (\<lambda>(nm, _). (nm, map fst (filter (\<lambda>(p, r). r = Some nm) out))) ns"
    using loop_allocations [OF loop] by (simp add: ProcessAllocator_init_def case_prod_unfold)
  have empty: "l = []"
    if "(nm, l) \<in> set (allocations s)"
      and "nm \<notin> set (map (the \<circ> snd) (filter (\<lambda>(p, r). r \<noteq> None) out))" for nm l
  proof -
    from that(1) have l: "l = map fst (filter (\<lambda>(p, r). r = Some nm) out)"
      unfolding lists by auto
    have "filter (\<lambda>(p, r). r = Some nm) out = []"
    proof (rule ccontr)
      assume "filter (\<lambda>(p, r). r = Some nm) out \<noteq> []"
      then obtain p r where "(p, r) \<in> set out" "r = Some nm"
        by (auto simp: filter_empty_conv)
      then have "nm \<in> set (map (the \<circ> snd) (filter (\<lambda>(p, r). r \<noteq> None) out))"
        by force
      with that(2) show False by simp
    qed
    with l show ?thesis by simp
  qed
  from run keys lists empty show ?thesis by blast
qed

theorem allocation_keys_stable_witness:
  "\<exists>s out. allocate_processes (ProcessAllocator_init LoadBalancer_nodes)
              generate_sample_processes = Inr (s, out) \<and>
     map fst (allocations s) = [''EdgeA'', ''EdgeB'', ''CoreX'', ''CoreY'', ''CloudZ'']"
proof -
  have keys: "map fst LoadBalancer_nodes = [''EdgeA'', ''EdgeB'', ''CoreX'', ''CoreY'', ''CloudZ'']"
    by (simp add: LoadBalancer_nodes_def)
  from allocation_keys_stable [of LoadBalancer_nodes generate_sample_processes]
  obtain s out
    where "allocate_processes (ProcessAllocator_init LoadBalancer_nodes)
             generate_sample_processes = Inr (s, out)"
      and "map fst (allocations s) = map fst LoadBalancer_nodes"
    by blast
  with keys show ?thesis by auto
qed

subsection \<open>Capacity and the choice of a node\<close>

lemma commit_mem:
  assumes "(k, n') \<in> set (commit b p ns)"
  shows "\<exists>n0. (k, n0) \<in> set ns \<and>
           n' = (if k = b
                 then n0\<lparr>cpu := cpu n0 + cpu_requirement p,
                         memory := memory n0 + memory_requirement p\<rparr>
                 else n0)"
  using assms by (auto simp: commit_def split: if_splits)

lemma step_within_capacity:
  assumes step: "allocate_single_process self p = Inr (self', r)"
    and dist: "distinct (map fst (nodes self))"
    and cap: "\<forall>(nm, n) \<in> set (nodes self). within_capacity n"
  shows "\<forall>(nm, n) \<in> set (nodes self'). within_capacity n"
  using step_cases [OF step]
proof (elim disjE conjE exE)
  assume "self' = self"
  with cap show ?thesis by simp
next
  fix b n
  assume b: "(b, n) \<in> set (nodes self)" and gate: "passes_gate p n"
    and nodes': "nodes self' = commit b p (nodes self)"
  show ?thesis
  proof (clarify)
    fix k n'
    assume "(k, n') \<in> set (nodes self')"
    then have "(k, n') \<in> set (commit b p (nodes self))" by (simp add: nodes')
    from commit_mem [OF this] obtain n0
      where n0: "(k, n0) \<in> set (nodes self)"
        and n': "n' = (if k = b
                 then n0\<lparr>cpu := cpu n0 + cpu_requirement p,
                         memory := memory n0 + memory_requirement p\<rparr>
                 else n0)" by blast
    show "within_capacity n'"
    proof (cases "k = b")
      case True
      with n0 b dist have "n0 = n" by (auto dest: eq_key_imp_eq_value)
      with True n' gate show ?thesis
        by (simp add: within_capacity_def passes_gate_def has_capacity_def)
    next
      case False
      with n' n0 cap show ?thesis by auto
    qed
  qed
qed

lemma loop_within_capacity:
  assumes loop: "allocate_loop self ps = Inr (s, out)"
    and dist: "distinct (map fst (nodes self))"
    and cap: "\<forall>(nm, n) \<in> set (nodes self). within_capacity n"
  shows "\<forall>(nm, n) \<in> set (nodes s). within_capacity n"
proof -
  let ?I = "\<lambda>a. distinct (map fst (nodes a)) \<and> (\<forall>(nm, n) \<in> set (nodes a). within_capacity n)"
  have "?I s"
  proof (rule loop_invariant [OF loop, where I = ?I])
    show "?I self" using dist cap by simp
  next
    fix a p a' r
    assume a: "?I a" and step: "allocate_single_process a p = Inr (a', r)"
    from step_keys [OF step] a have "distinct (map fst (nodes a'))" by simp
    moreover from step_within_capacity [OF step] a
    have "\<forall>(nm, n) \<in> set (nodes a'). within_capacity n" by blast
    ultimately show "?I a'" by simp
  qed
  then show ?thesis by simp
qed

text \<open>
  C1 (capacity invariant). Let the registry have no repeated key and let every node
  start with \<open>cpu \<le> 90\<close> and \<open>memory \<le> 18\<close>. Cut the sorted batch anywhere, into the
  workloads attempted so far and those still to come. Then the loop over the first part
  returns an allocator without an error, the loop over the second part takes that
  allocator to the one the whole pass returns, and every node is within the two bounds
  both in the allocator in between and in the final one. So the bounds hold after every
  single attempt of the pass and at its end. The requirements of the workloads need not
  be non-negative for this.
\<close>

theorem capacity_invariant:
  assumes "distinct (map fst ns)"
    and "\<forall>(nm, n) \<in> set ns. cpu n \<le> 90 \<and> memory n \<le> 18"
  shows "\<forall>before after. sorted_processes ps = before @ after \<longrightarrow>
           (\<exists>s1 out1 s out2.
              allocate_loop (ProcessAllocator_init ns) before = Inr (s1, out1) \<and>
              allocate_loop s1 after = Inr (s, out2) \<and>
              allocate_processes (ProcessAllocator_init ns) ps = Inr (s, out1 @ out2) \<and>
              (\<forall>(nm, n) \<in> set (nodes s1). cpu n \<le> 90 \<and> memory n \<le> 18) \<and>
              (\<forall>(nm, n) \<in> set (nodes s). cpu n \<le> 90 \<and> memory n \<le> 18))"
proof (intro allI impI)
  fix before after
  assume cut: "sorted_processes ps = before @ after"
  have dist: "distinct (map fst (nodes (ProcessAllocator_init ns)))"
    using assms(1) by (simp add: ProcessAllocator_init_def)
  have start: "\<forall>(nm, n) \<in> set (nodes (ProcessAllocator_init ns)). within_capacity n"
    using assms(2) by (auto simp: ProcessAllocator_init_def within_capacity_def)
  from loop_split [OF keys_agree_init, of ns before after] obtain s1 out1 s out2
    where first: "allocate_loop (ProcessAllocator_init ns) before = Inr (s1, out1)"
      and second: "allocate_loop s1 after = Inr (s, out2)"
      and whole: "allocate_loop (ProcessAllocator_init ns) (before @ after) =
                    Inr (s, out1 @ out2)"
    by blast
  from whole cut
  have run: "allocate_processes (ProcessAllocator_init ns) ps = Inr (s, out1 @ out2)"
    by (simp add: allocate_processes_def)
  from loop_within_capacity [OF first dist start]
  have mid: "\<forall>(nm, n) \<in> set (nodes s1). cpu n \<le> 90 \<and> memory n \<le> 18"
    by (simp add: within_capacity_def)
  from loop_within_capacity [OF whole dist start]
  have fin: "\<forall>(nm, n) \<in> set (nodes s). cpu n \<le> 90 \<and> memory n \<le> 18"
    by (simp add: within_capacity_def)
  from first second run mid fin
  show "\<exists>s1 out1 s out2.
              allocate_loop (ProcessAllocator_init ns) before = Inr (s1, out1) \<and>
              allocate_loop s1 after = Inr (s, out2) \<and>
              allocate_processes (ProcessAllocator_init ns) ps = Inr (s, out1 @ out2) \<and>
              (\<forall>(nm, n) \<in> set (nodes s1). cpu n \<le> 90 \<and> memory n \<le> 18) \<and>
              (\<forall>(nm, n) \<in> set (nodes s). cpu n \<le> 90 \<and> memory n \<le> 18)"
    by blast
qed

theorem capacity_invariant_witness:
  "\<exists>s1 out1 s out2.
     allocate_loop (ProcessAllocator_init LoadBalancer_nodes)
       (take 3 (sorted_processes generate_sample_processes)) = Inr (s1, out1) \<and>
     allocate_processes (ProcessAllocator_init LoadBalancer_nodes)
       generate_sample_processes = Inr (s, out1 @ out2) \<and>
     (\<forall>(nm, n) \<in> set (nodes s1). cpu n \<le> 90 \<and> memory n \<le> 18) \<and>
     (\<forall>(nm, n) \<in> set (nodes s). cpu n \<le> 90 \<and> memory n \<le> 18)"
proof -
  have keys: "distinct (map fst LoadBalancer_nodes)"
    by (simp add: LoadBalancer_nodes_def)
  have start: "\<forall>(nm, n) \<in> set LoadBalancer_nodes. cpu n \<le> 90 \<and> memory n \<le> 18"
    by (simp add: LoadBalancer_nodes_def)
  have cut: "sorted_processes generate_sample_processes =
      take 3 (sorted_processes generate_sample_processes) @
      drop 3 (sorted_processes generate_sample_processes)"
    by simp
  from capacity_invariant [OF keys start, of generate_sample_processes] cut
  show ?thesis by blast
qed

text \<open>
  C3 (greedy minimality). When a call of \<^verbatim>\<open>_allocate_single_process\<close> returns a key,
  the registry it was called on holds under that key a node that passes the capacity
  gate for the workload, whose placement score is at most the placement score of every
  node of that registry that passes the gate; and it is under that key that the
  workload is committed.
\<close>

theorem greedy_minimality:
  assumes "allocate_single_process self p = Inr (self', Some b)"
  shows "\<exists>n. (b, n) \<in> set (nodes self) \<and>
           has_capacity n (cpu_requirement p) (memory_requirement p) \<and>
           (\<forall>(nm', n') \<in> set (nodes self).
              has_capacity n' (cpu_requirement p) (memory_requirement p) \<longrightarrow>
              placement_score n p \<le> placement_score n' p) \<and>
           nodes self' = commit b p (nodes self)"
  using step_cases [OF assms] by (auto simp: passes_gate_def)

theorem greedy_minimality_witness:
  "\<exists>self' n. allocate_single_process (ProcessAllocator_init LoadBalancer_nodes) P1_Analytics =
       Inr (self', Some ''EdgeA'') \<and>
     (''EdgeA'', n) \<in> set LoadBalancer_nodes \<and>
     (\<forall>(nm', n') \<in> set LoadBalancer_nodes.
        has_capacity n' 15 2 \<longrightarrow> placement_score n P1_Analytics \<le> placement_score n' P1_Analytics)"
proof -
  have "map_sum id snd
          (allocate_single_process (ProcessAllocator_init LoadBalancer_nodes) P1_Analytics) =
        Inr (Some ''EdgeA'')"
    by code_simp
  then obtain self'
    where step: "allocate_single_process (ProcessAllocator_init LoadBalancer_nodes) P1_Analytics =
       Inr (self', Some ''EdgeA'')"
    by (cases "allocate_single_process (ProcessAllocator_init LoadBalancer_nodes) P1_Analytics")
      auto
  from greedy_minimality [OF step] step show ?thesis
    by (auto simp: ProcessAllocator_init_def P1_Analytics_def)
qed

subsection \<open>Failure and monotonicity\<close>

text \<open>
  C5 (failure semantics). If no node of the registry passes the capacity gate for a
  workload, the call of \<^verbatim>\<open>_allocate_single_process\<close> returns \<open>None\<close> without an error
  and returns the allocator it was given: no node and no allocation list is changed.
  The loop then goes on with the rest of the batch from that same allocator: its result
  on the workload followed by the rest is its result on the rest, with the failed
  attempt put in front. When the allocation map has the keys of the registry, the loop
  over the rest returns, with one attempt for each remaining workload, in order; and
  each remaining workload is in fact attempted: the loop over the workloads between the
  failed one and it returns an allocator (the given one itself, when it comes next),
  its attempt is the call of \<^verbatim>\<open>_allocate_single_process\<close> on that allocator, the loop
  over the workloads after it starts from what this call returns, and the outcome of
  this call is what the loop reports for it.
\<close>

theorem failure_semantics:
  assumes "\<forall>(nm, n) \<in> set (nodes self).
             \<not> has_capacity n (cpu_requirement p) (memory_requirement p)"
  shows "allocate_single_process self p = Inr (self, None) \<and>
         allocate_loop self (p # rest) =
           (case allocate_loop self rest of
              Inl e \<Rightarrow> Inl e
            | Inr (s, out) \<Rightarrow> Inr (s, (p, None) # out)) \<and>
         (keys_agree self \<longrightarrow>
            (\<exists>s out. allocate_loop self rest = Inr (s, out) \<and> map fst out = rest \<and>
               allocate_loop self (p # rest) = Inr (s, (p, None) # out)) \<and>
            (\<forall>q after. rest = q # after \<longrightarrow>
               (\<exists>s2 r s out3.
                  allocate_single_process self q = Inr (s2, r) \<and>
                  allocate_loop s2 after = Inr (s, out3) \<and> map fst out3 = after \<and>
                  allocate_loop self (p # rest) = Inr (s, (p, None) # (q, r) # out3))) \<and>
            (\<forall>mid q after. rest = mid @ q # after \<longrightarrow>
               (\<exists>s1 out1 s2 r s out3.
                  allocate_loop self mid = Inr (s1, out1) \<and> map fst out1 = mid \<and>
                  allocate_single_process s1 q = Inr (s2, r) \<and>
                  allocate_loop s2 after = Inr (s, out3) \<and> map fst out3 = after \<and>
                  allocate_loop self (p # rest) =
                    Inr (s, (p, None) # out1 @ (q, r) # out3))))"
proof -
  from assms have "candidates (nodes self) p = []" by (simp add: candidates_Nil)
  then have step: "allocate_single_process self p = Inr (self, None)"
    by (rule step_unplaced)
  then have loop: "allocate_loop self (p # rest) =
           (case allocate_loop self rest of
              Inl e \<Rightarrow> Inl e
            | Inr (s, out) \<Rightarrow> Inr (s, (p, None) # out))"
    by (simp split: sum.splits)
  have all: "\<exists>s out. allocate_loop self rest = Inr (s, out) \<and> map fst out = rest \<and>
               allocate_loop self (p # rest) = Inr (s, (p, None) # out)"
    if "keys_agree self"
  proof -
    from loop_total [OF that] obtain s out
      where rest: "allocate_loop self rest = Inr (s, out)" by blast
    from loop_attempts [OF rest] have "map fst out = rest" .
    with rest loop show ?thesis by simp
  qed
  have each: "\<exists>s1 out1 s2 r s out3.
                  allocate_loop self mid = Inr (s1, out1) \<and> map fst out1 = mid \<and>
                  allocate_single_process s1 q = Inr (s2, r) \<and>
                  allocate_loop s2 after = Inr (s, out3) \<and> map fst out3 = after \<and>
                  allocate_loop self (p # rest) =
                    Inr (s, (p, None) # out1 @ (q, r) # out3)"
    if keys: "keys_agree self" and cut: "rest = mid @ q # after" for mid q after
  proof -
    from loop_cut [OF keys, of mid q after] obtain s1 out1 s2 r s out3
      where a: "allocate_loop self mid = Inr (s1, out1)" and b: "map fst out1 = mid"
        and c: "allocate_single_process s1 q = Inr (s2, r)"
        and d: "allocate_loop s2 after = Inr (s, out3)" and e: "map fst out3 = after"
        and f: "allocate_loop self (mid @ q # after) = Inr (s, out1 @ (q, r) # out3)"
      by blast
    from loop f cut
    have g: "allocate_loop self (p # rest) = Inr (s, (p, None) # out1 @ (q, r) # out3)"
      by simp
    show ?thesis
      by (rule exI [of _ s1], rule exI [of _ out1], rule exI [of _ s2], rule exI [of _ r],
          rule exI [of _ s], rule exI [of _ out3], intro conjI)
        (rule a b c d e g)+
  qed
  have next_one: "\<exists>s2 r s out3.
                  allocate_single_process self q = Inr (s2, r) \<and>
                  allocate_loop s2 after = Inr (s, out3) \<and> map fst out3 = after \<and>
                  allocate_loop self (p # rest) = Inr (s, (p, None) # (q, r) # out3)"
    if keys: "keys_agree self" and cut: "rest = q # after" for q after
  proof -
    from cut have "rest = [] @ q # after" by simp
    from each [OF keys this] obtain s1 out1 s2 r s out3
      where a: "allocate_loop self [] = Inr (s1, out1)"
        and c: "allocate_single_process s1 q = Inr (s2, r)"
        and d: "allocate_loop s2 after = Inr (s, out3)" and e: "map fst out3 = after"
        and g: "allocate_loop self (p # rest) = Inr (s, (p, None) # out1 @ (q, r) # out3)"
      by blast
    from a have s1: "s1 = self" and out1: "out1 = []" by simp_all
    show ?thesis
      by (rule exI [of _ s2], rule exI [of _ r], rule exI [of _ s], rule exI [of _ out3],
          intro conjI)
        (rule c [unfolded s1] d e g [unfolded out1 append_Nil])+
  qed
  from step loop all next_one each show ?thesis by blast
qed

theorem failure_semantics_witness:
  "\<exists>s2. allocate_single_process (ProcessAllocator_init LoadBalancer_nodes) heavy_process =
       Inr (ProcessAllocator_init LoadBalancer_nodes, None) \<and>
     allocate_single_process (ProcessAllocator_init LoadBalancer_nodes) P10_Monitor =
       Inr (s2, Some ''EdgeA'') \<and>
     allocate_loop (ProcessAllocator_init LoadBalancer_nodes) [heavy_process, P10_Monitor] =
       Inr (s2, [(heavy_process, None), (P10_Monitor, Some ''EdgeA'')]) \<and>
     map (\<lambda>(nm, l). (nm, map process_id l)) (allocations s2) =
       [(''EdgeA'', [''P10_Monitor'']), (''EdgeB'', []), (''CoreX'', []), (''CoreY'', []),
        (''CloudZ'', [])]"
proof -
  let ?S = "ProcessAllocator_init LoadBalancer_nodes"
  have full: "\<forall>(nm, n) \<in> set (nodes ?S).
      \<not> has_capacity n (cpu_requirement heavy_process) (memory_requirement heavy_process)"
    by (simp add: ProcessAllocator_init_def LoadBalancer_nodes_def heavy_process_def
        has_capacity_def)
  have placed_on: "map_sum id (\<lambda>(s, r). (r, map (\<lambda>(nm, l). (nm, map process_id l)) (allocations s)))
      (allocate_single_process ?S P10_Monitor) =
      Inr (Some ''EdgeA'',
        [(''EdgeA'', [''P10_Monitor'']), (''EdgeB'', []), (''CoreX'', []), (''CoreY'', []),
         (''CloudZ'', [])])"
    by code_simp
  note fs = failure_semantics [OF full, of "[P10_Monitor]"]
  from fs have failed: "allocate_single_process ?S heavy_process = Inr (?S, None)"
    by (rule conjunct1)
  from fs keys_agree_init [of LoadBalancer_nodes]
  have "\<forall>q after. [P10_Monitor] = q # after \<longrightarrow>
               (\<exists>s2 r s out3.
                  allocate_single_process ?S q = Inr (s2, r) \<and>
                  allocate_loop s2 after = Inr (s, out3) \<and> map fst out3 = after \<and>
                  allocate_loop ?S [heavy_process, P10_Monitor] =
                    Inr (s, (heavy_process, None) # (q, r) # out3))"
    by blast
  from this [rule_format, OF refl] obtain s2 r s out3
    where step: "allocate_single_process ?S P10_Monitor = Inr (s2, r)"
      and last: "allocate_loop s2 [] = Inr (s, out3)"
      and run: "allocate_loop ?S [heavy_process, P10_Monitor] =
                  Inr (s, (heavy_process, None) # (P10_Monitor, r) # out3)"
    by blast
  from last have s: "s = s2" and out3: "out3 = []" by simp_all
  from placed_on step have r: "r = Some ''EdgeA''"
    and lists: "map (\<lambda>(nm, l). (nm, map process_id l)) (allocations s2) =
       [(''EdgeA'', [''P10_Monitor'']), (''EdgeB'', []), (''CoreX'', []), (''CoreY'', []),
        (''CloudZ'', [])]"
    by simp_all
  show ?thesis
    by (rule exI [of _ s2], intro conjI)
      (rule failed step [unfolded r] run [unfolded r s out3] lists)+
qed

lemma step_monotone:
  assumes step: "allocate_single_process self p = Inr (self', r)"
    and nonneg: "0 \<le> cpu_requirement p \<and> 0 \<le> memory_requirement p"
  shows "list_all2 (\<lambda>(k, n) (k', n'). k' = k \<and> cpu n \<le> cpu n' \<and> memory n \<le> memory n')
           (nodes self) (nodes self')"
  using step_cases [OF step]
proof (elim disjE conjE exE)
  assume "self' = self"
  then show ?thesis by (simp add: list_all2_same case_prod_unfold)
next
  fix b n
  assume "nodes self' = commit b p (nodes self)"
  then show ?thesis using nonneg
    by (simp add: commit_def list_all2_map2 list_all2_same case_prod_unfold)
qed

lemma loop_monotone:
  assumes loop: "allocate_loop self ps = Inr (s, out)"
    and nonneg: "\<forall>p \<in> set ps. 0 \<le> cpu_requirement p \<and> 0 \<le> memory_requirement p"
  shows "list_all2 (\<lambda>(k, n) (k', n'). k' = k \<and> cpu n \<le> cpu n' \<and> memory n \<le> memory n')
           (nodes self) (nodes s)"
proof -
  let ?R = "\<lambda>(k :: string, n) (k', n'). k' = k \<and> cpu n \<le> cpu n' \<and> memory n \<le> memory n'"
  show ?thesis
  proof (rule loop_invariant [OF loop, where I = "\<lambda>a. list_all2 ?R (nodes self) (nodes a)"])
    show "list_all2 ?R (nodes self) (nodes self)"
      by (simp add: list_all2_same case_prod_unfold)
  next
    fix a p a' r
    assume a: "list_all2 ?R (nodes self) (nodes a)" and p: "p \<in> set ps"
      and step: "allocate_single_process a p = Inr (a', r)"
    from p nonneg have "0 \<le> cpu_requirement p \<and> 0 \<le> memory_requirement p" by blast
    from step_monotone [OF step this] have "list_all2 ?R (nodes a) (nodes a')" .
    with a show "list_all2 ?R (nodes self) (nodes a')"
      by (rule list_all2_trans [rotated]) auto
  qed
qed

text \<open>
  C7 (monotonic commit). Let every workload of the batch have non-negative
  \<open>cpu_requirement\<close> and \<open>memory_requirement\<close>. Then the pass of a new allocator returns
  without an error and, node by node, \<open>cpu\<close> and \<open>memory\<close> in the final registry are at
  least what they were at the start. Moreover, for each workload of the sorted batch:
  the loop over the workloads before it returns an allocator, the attempt for the
  workload takes that to a second allocator, the loop over the workloads after it takes
  the second to the one the whole pass returns, and node by node \<open>cpu\<close> and \<open>memory\<close>
  never go down from the start to the first, from the first to the second (across the
  attempt), and from the second to the final one.
\<close>

theorem monotonic_commit:
  assumes "\<forall>p \<in> set ps. 0 \<le> cpu_requirement p \<and> 0 \<le> memory_requirement p"
  shows "(\<exists>s out. allocate_processes (ProcessAllocator_init ns) ps = Inr (s, out) \<and>
            list_all2 (\<lambda>(k, n) (k', n'). k' = k \<and> cpu n \<le> cpu n' \<and> memory n \<le> memory n')
              ns (nodes s)) \<and>
         (\<forall>before p after. sorted_processes ps = before @ p # after \<longrightarrow>
            (\<exists>s1 out1 s2 r s out3.
               allocate_loop (ProcessAllocator_init ns) before = Inr (s1, out1) \<and>
               allocate_single_process s1 p = Inr (s2, r) \<and>
               allocate_loop s2 after = Inr (s, out3) \<and>
               allocate_processes (ProcessAllocator_init ns) ps =
                 Inr (s, out1 @ (p, r) # out3) \<and>
               list_all2 (\<lambda>(k, n) (k', n'). k' = k \<and> cpu n \<le> cpu n' \<and> memory n \<le> memory n')
                 ns (nodes s1) \<and>
               list_all2 (\<lambda>(k, n) (k', n'). k' = k \<and> cpu n \<le> cpu n' \<and> memory n \<le> memory n')
                 (nodes s1) (nodes s2) \<and>
               list_all2 (\<lambda>(k, n) (k', n'). k' = k \<and> cpu n \<le> cpu n' \<and> memory n \<le> memory n')
                 (nodes s2) (nodes s)))"
proof -
  let ?R = "\<lambda>(k :: string, n) (k', n'). k' = k \<and> cpu n \<le> cpu n' \<and> memory n \<le> memory n'"
  have sorted: "\<forall>p \<in> set (sorted_processes ps).
      0 \<le> cpu_requirement p \<and> 0 \<le> memory_requirement p"
    using assms by (simp add: sorted_processes_def)
  have reg: "nodes (ProcessAllocator_init ns) = ns" by (simp add: ProcessAllocator_init_def)
  have whole: "\<exists>s out. allocate_processes (ProcessAllocator_init ns) ps = Inr (s, out) \<and>
            list_all2 ?R ns (nodes s)"
  proof -
    from loop_total [OF keys_agree_init] obtain s out
      where loop: "allocate_loop (ProcessAllocator_init ns) (sorted_processes ps) = Inr (s, out)"
      by blast
    from loop_monotone [OF loop sorted] have "list_all2 ?R ns (nodes s)" by (simp only: reg)
    with loop show ?thesis by (auto simp: allocate_processes_def)
  qed
  have each: "\<exists>s1 out1 s2 r s out3.
               allocate_loop (ProcessAllocator_init ns) before = Inr (s1, out1) \<and>
               allocate_single_process s1 p = Inr (s2, r) \<and>
               allocate_loop s2 after = Inr (s, out3) \<and>
               allocate_processes (ProcessAllocator_init ns) ps =
                 Inr (s, out1 @ (p, r) # out3) \<and>
               list_all2 ?R ns (nodes s1) \<and>
               list_all2 ?R (nodes s1) (nodes s2) \<and>
               list_all2 ?R (nodes s2) (nodes s)"
    if cut: "sorted_processes ps = before @ p # after" for before p after
  proof -
    from loop_split [OF keys_agree_init, of ns before "p # after"] obtain s1 out1 s out2
      where first: "allocate_loop (ProcessAllocator_init ns) before = Inr (s1, out1)"
        and second: "allocate_loop s1 (p # after) = Inr (s, out2)"
        and all: "allocate_loop (ProcessAllocator_init ns) (before @ p # after) =
                    Inr (s, out1 @ out2)"
      by blast
    from loop_Cons [OF second] obtain s2 r out3
      where step: "allocate_single_process s1 p = Inr (s2, r)"
        and third: "allocate_loop s2 after = Inr (s, out3)"
        and out2: "out2 = (p, r) # out3" by blast
    from all cut out2
    have run: "allocate_processes (ProcessAllocator_init ns) ps =
                 Inr (s, out1 @ (p, r) # out3)"
      by (simp add: allocate_processes_def)
    have parts: "set before \<subseteq> set (sorted_processes ps)"
      "p \<in> set (sorted_processes ps)" "set after \<subseteq> set (sorted_processes ps)"
      by (auto simp: cut)
    have "\<forall>q \<in> set before. 0 \<le> cpu_requirement q \<and> 0 \<le> memory_requirement q"
      using parts(1) sorted by blast
    from loop_monotone [OF first this] have a: "list_all2 ?R ns (nodes s1)"
      by (simp only: reg)
    have "0 \<le> cpu_requirement p \<and> 0 \<le> memory_requirement p"
      using parts(2) sorted by blast
    from step_monotone [OF step this] have b: "list_all2 ?R (nodes s1) (nodes s2)" .
    have "\<forall>q \<in> set after. 0 \<le> cpu_requirement q \<and> 0 \<le> memory_requirement q"
      using parts(3) sorted by blast
    from loop_monotone [OF third this] have c: "list_all2 ?R (nodes s2) (nodes s)" .
    from first step third run a b c show ?thesis by blast
  qed
  from whole each show ?thesis by blast
qed

theorem monotonic_commit_witness:
  "\<exists>s1 out1 s2 r s out3.
     allocate_loop (ProcessAllocator_init LoadBalancer_nodes)
       (take 3 (sorted_processes generate_sample_processes)) = Inr (s1, out1) \<and>
     allocate_single_process s1 (sorted_processes generate_sample_processes ! 3) =
       Inr (s2, r) \<and>
     allocate_processes (ProcessAllocator_init LoadBalancer_nodes) generate_sample_processes =
       Inr (s, out1 @ (sorted_processes generate_sample_processes ! 3, r) # out3) \<and>
     list_all2 (\<lambda>(k, n) (k', n'). k' = k \<and> cpu n \<le> cpu n' \<and> memory n \<le> memory n')
       (nodes s1) (nodes s2) \<and>
     list_all2 (\<lambda>(k, n) (k', n'). k' = k \<and> cpu n \<le> cpu n' \<and> memory n \<le> memory n')
       LoadBalancer_nodes (nodes s)"
proof -
  have nonneg: "\<forall>p \<in> set generate_sample_processes.
      0 \<le> cpu_requirement p \<and> 0 \<le> memory_requirement p"
    by (simp add: generate_sample_processes_def)
  have "length generate_sample_processes = 10"
    by (simp add: generate_sample_processes_def)
  then have "3 < length (sorted_processes generate_sample_processes)"
    by (simp add: sorted_processes_def)
  then have cut: "sorted_processes generate_sample_processes =
      take 3 (sorted_processes generate_sample_processes) @
      sorted_processes generate_sample_processes ! 3 #
      drop 4 (sorted_processes generate_sample_processes)"
    using id_take_nth_drop [of 3 "sorted_processes generate_sample_processes"] by simp
  from monotonic_commit [OF nonneg, of LoadBalancer_nodes] have
    whole: "\<exists>s out. allocate_processes (ProcessAllocator_init LoadBalancer_nodes)
                generate_sample_processes = Inr (s, out) \<and>
            list_all2 (\<lambda>(k, n) (k', n'). k' = k \<and> cpu n \<le> cpu n' \<and> memory n \<le> memory n')
              LoadBalancer_nodes (nodes s)"
    and each: "\<forall>before p after.
        sorted_processes generate_sample_processes = before @ p # after \<longrightarrow>
            (\<exists>s1 out1 s2 r s out3.
               allocate_loop (ProcessAllocator_init LoadBalancer_nodes) before = Inr (s1, out1) \<and>
               allocate_single_process s1 p = Inr (s2, r) \<and>
               allocate_loop s2 after = Inr (s, out3) \<and>
               allocate_processes (ProcessAllocator_init LoadBalancer_nodes)
                 generate_sample_processes = Inr (s, out1 @ (p, r) # out3) \<and>
               list_all2 (\<lambda>(k, n) (k', n'). k' = k \<and> cpu n \<le> cpu n' \<and> memory n \<le> memory n')
                 LoadBalancer_nodes (nodes s1) \<and>
               list_all2 (\<lambda>(k, n) (k', n'). k' = k \<and> cpu n \<le> cpu n' \<and> memory n \<le> memory n')
                 (nodes s1) (nodes s2) \<and>
               list_all2 (\<lambda>(k, n) (k', n'). k' = k \<and> cpu n \<le> cpu n' \<and> memory n \<le> memory n')
                 (nodes s2) (nodes s))"
    by blast+
  from each [rule_format, OF cut] obtain s1 out1 s2 r s out3
    where a: "allocate_loop (ProcessAllocator_init LoadBalancer_nodes)
       (take 3 (sorted_processes generate_sample_processes)) = Inr (s1, out1)"
      and b: "allocate_single_process s1 (sorted_processes generate_sample_processes ! 3) =
       Inr (s2, r)"
      and c: "allocate_processes (ProcessAllocator_init LoadBalancer_nodes)
         generate_sample_processes =
       Inr (s, out1 @ (sorted_processes generate_sample_processes ! 3, r) # out3)"
      and d: "list_all2 (\<lambda>(k, n) (k', n'). k' = k \<and> cpu n \<le> cpu n' \<and> memory n \<le> memory n')
       (nodes s1) (nodes s2)"
    by blast
  from whole c
  have e: "list_all2 (\<lambda>(k, n) (k', n'). k' = k \<and> cpu n \<le> cpu n' \<and> memory n \<le> memory n')
       LoadBalancer_nodes (nodes s)"
    by auto
  from a b c d e show ?thesis by blast
qed

subsection \<open>The allocation lists and the attempts\<close>

lemma loop_outcome_keys:
  "allocate_loop self ps = Inr (s, out) \<Longrightarrow> (p, Some b) \<in> set out \<Longrightarrow>
     b \<in> set (map fst (nodes self))"
proof (induction ps arbitrary: self out)
  case Nil
  then show ?case by simp
next
  case (Cons q qs)
  from loop_Cons [OF Cons.prems(1)] obtain s1 r out'
    where step: "allocate_single_process self q = Inr (s1, r)"
      and rest: "allocate_loop s1 qs = Inr (s, out')"
      and out: "out = (q, r) # out'" by blast
  from Cons.prems(2) out have "(p, Some b) = (q, r) \<or> (p, Some b) \<in> set out'" by simp
  then show ?case
  proof
    assume "(p, Some b) = (q, r)"
    then have "r = Some b" by simp
    with step_cases [OF step] obtain n where "(b, n) \<in> set (nodes self)" by auto
    then show ?thesis by force
  next
    assume "(p, Some b) \<in> set out'"
    from Cons.IH [OF rest this] have "b \<in> set (map fst (nodes s1))" .
    with step_keys [OF step] show ?thesis by simp
  qed
qed

lemma mset_filter_disj:
  "(\<And>x. x \<in> set xs \<Longrightarrow> \<not> (P x \<and> Q x)) \<Longrightarrow>
     mset (filter (\<lambda>x. P x \<or> Q x) xs) = mset (filter P xs) + mset (filter Q xs)"
  by (induction xs) auto

lemma mset_lists_by_key:
  fixes out :: "('a \<times> 'b option) list"
  assumes "distinct ks"
  shows "mset (concat (map (\<lambda>nm. map fst (filter (\<lambda>x. snd x = Some nm) out)) ks)) =
         mset (map fst (filter (\<lambda>x. \<exists>nm \<in> set ks. snd x = Some nm) out))"
  using assms
proof (induction ks)
  case Nil
  show ?case by simp
next
  case (Cons k ks)
  have split: "filter (\<lambda>x. \<exists>nm \<in> set (k # ks). snd x = Some nm) out =
               filter (\<lambda>x. snd x = Some k \<or> (\<exists>nm \<in> set ks. snd x = Some nm)) out"
    by (rule filter_cong) auto
  have disj: "\<not> (snd x = Some k \<and> (\<exists>nm \<in> set ks. snd x = Some nm))"
    for x :: "'a \<times> 'b option"
    using Cons.prems by auto
  have "mset (filter (\<lambda>x. \<exists>nm \<in> set (k # ks). snd x = Some nm) out) =
        mset (filter (\<lambda>x. snd x = Some k) out) +
        mset (filter (\<lambda>x. \<exists>nm \<in> set ks. snd x = Some nm) out)"
    unfolding split by (rule mset_filter_disj) (rule disj)
  then have "image_mset fst (mset (filter (\<lambda>x. \<exists>nm \<in> set (k # ks). snd x = Some nm) out)) =
        image_mset fst (mset (filter (\<lambda>x. snd x = Some k) out) +
        mset (filter (\<lambda>x. \<exists>nm \<in> set ks. snd x = Some nm) out))"
    by (simp only:)
  then have whole: "mset (map fst (filter (\<lambda>x. \<exists>nm \<in> set (k # ks). snd x = Some nm) out)) =
        mset (map fst (filter (\<lambda>x. snd x = Some k) out)) +
        mset (map fst (filter (\<lambda>x. \<exists>nm \<in> set ks. snd x = Some nm) out))"
    by (simp only: mset_map image_mset_union)
  have "distinct ks" using Cons.prems by simp
  from Cons.IH [OF this]
  have "mset (concat (map (\<lambda>nm. map fst (filter (\<lambda>x. snd x = Some nm) out)) (k # ks))) =
        mset (map fst (filter (\<lambda>x. snd x = Some k) out)) +
        mset (map fst (filter (\<lambda>x. \<exists>nm \<in> set ks. snd x = Some nm) out))"
    by (simp only: list.map concat.simps mset_append)
  with whole show ?case by (simp only:)
qed

lemma placed_unplaced_mset: "mset (placed out) + mset (unplaced out) = mset (map fst out)"
  by (induction out) (auto simp: placed_def unplaced_def)

lemma placed_unplaced_length: "length (placed out) + length (unplaced out) = length out"
  by (induction out) (auto simp: placed_def unplaced_def)

lemma fresh_allocations_mset:
  assumes loop: "allocate_loop (ProcessAllocator_init ns) qs = Inr (s, out)"
    and dist: "distinct (map fst ns)"
  shows "mset (concat (map snd (allocations s))) = mset (placed out)"
proof -
  have lists: "allocations s =
      map (\<lambda>x. (fst x, map fst (filter (\<lambda>y. snd y = Some (fst x)) out))) ns"
    using loop_allocations [OF loop] by (simp add: ProcessAllocator_init_def case_prod_unfold)
  then have "concat (map snd (allocations s)) =
      concat (map (\<lambda>nm. map fst (filter (\<lambda>y. snd y = Some nm) out)) (map fst ns))"
    by (simp add: comp_def)
  then have a: "mset (concat (map snd (allocations s))) =
      mset (map fst (filter (\<lambda>x. \<exists>nm \<in> set (map fst ns). snd x = Some nm) out))"
    using mset_lists_by_key [OF dist, of out] by (simp only:)
  have b: "filter (\<lambda>x. \<exists>nm \<in> set (map fst ns). snd x = Some nm) out =
      filter (\<lambda>(p, r). r \<noteq> None) out"
  proof (rule filter_cong [OF refl])
    fix x assume x: "x \<in> set out"
    obtain p r where pr: "x = (p, r)" by (cases x)
    show "(\<exists>nm \<in> set (map fst ns). snd x = Some nm) = (case x of (p, r) \<Rightarrow> r \<noteq> None)"
    proof (cases r)
      case None
      with pr show ?thesis by auto
    next
      case (Some b)
      with x pr have "(p, Some b) \<in> set out" by simp
      from loop_outcome_keys [OF loop this] have "b \<in> set (map fst ns)"
        by (simp add: ProcessAllocator_init_def)
      with Some pr show ?thesis by auto
    qed
  qed
  show ?thesis unfolding placed_def b [symmetric] by (rule a)
qed

text \<open>
  C8 (placement partition). Let the registry have no repeated key. Then the pass of a
  new allocator returns without an error, with one attempt for each workload of the
  batch. Counted with multiplicity, the allocation lists together hold exactly the
  workloads whose attempt returned a key (the placed ones); the placed and the unplaced
  workloads together are the batch, and their numbers add up to the size of the batch.
  If moreover the workloads of the batch are pairwise different, no workload occurs
  twice in the allocation lists, an unplaced workload occurs in none of them, and a
  placed workload occurs in the list of the key its attempt returned and in the list of
  no other key.
\<close>

theorem placement_partition:
  assumes "distinct (map fst ns)"
  shows "\<exists>s out. allocate_processes (ProcessAllocator_init ns) ps = Inr (s, out) \<and>
     mset (map fst out) = mset ps \<and>
     mset (concat (map snd (allocations s))) = mset (placed out) \<and>
     mset (placed out) + mset (unplaced out) = mset ps \<and>
     length (placed out) + length (unplaced out) = length ps \<and>
     (distinct ps \<longrightarrow>
        distinct (concat (map snd (allocations s))) \<and>
        (\<forall>(p, r) \<in> set out.
           case r of
             None \<Rightarrow> p \<notin> set (concat (map snd (allocations s)))
           | Some b \<Rightarrow>
               (\<exists>l. (b, l) \<in> set (allocations s) \<and> p \<in> set l) \<and>
               (\<forall>(b', l') \<in> set (allocations s). p \<in> set l' \<longrightarrow> b' = b)))"
proof -
  from loop_total [OF keys_agree_init] obtain s out
    where loop: "allocate_loop (ProcessAllocator_init ns) (sorted_processes ps) = Inr (s, out)"
    by blast
  have attempts: "map fst out = sorted_processes ps" by (rule loop_attempts [OF loop])
  then have batch: "mset (map fst out) = mset ps" by (simp add: sorted_processes_def)
  have lists: "mset (concat (map snd (allocations s))) = mset (placed out)"
    by (rule fresh_allocations_mset [OF loop assms])
  have parts: "mset (placed out) + mset (unplaced out) = mset ps"
    using placed_unplaced_mset [of out] batch by simp
  have "length out = length ps"
    using arg_cong [OF attempts, of length] by (simp add: sorted_processes_def)
  then have sizes: "length (placed out) + length (unplaced out) = length ps"
    using placed_unplaced_length [of out] by simp
  have entries: "allocations s =
      map (\<lambda>x. (fst x, map fst (filter (\<lambda>y. snd y = Some (fst x)) out))) ns"
    using loop_allocations [OF loop] by (simp add: ProcessAllocator_init_def case_prod_unfold)
  have once: "distinct (concat (map snd (allocations s))) \<and>
        (\<forall>(p, r) \<in> set out.
           case r of
             None \<Rightarrow> p \<notin> set (concat (map snd (allocations s)))
           | Some b \<Rightarrow>
               (\<exists>l. (b, l) \<in> set (allocations s) \<and> p \<in> set l) \<and>
               (\<forall>(b', l') \<in> set (allocations s). p \<in> set l' \<longrightarrow> b' = b))"
    if "distinct ps"
  proof -
    from that have "distinct (sorted_processes ps)" by (simp add: sorted_processes_def)
    with attempts have dist: "distinct (map fst out)" by simp
    then have "distinct (map fst (filter (\<lambda>(p, r). r \<noteq> None) out))"
      by (rule distinct_map_filter)
    then have "distinct (placed out)" by (simp add: placed_def)
    with lists have d: "distinct (concat (map snd (allocations s)))"
      by (metis mset_eq_imp_distinct_iff)
    have in_list: "(p, Some b') \<in> set out"
      if "(b', l') \<in> set (allocations s)" "p \<in> set l'" for p b' l'
      using that unfolding entries by auto
    have each: "case r of
             None \<Rightarrow> p \<notin> set (concat (map snd (allocations s)))
           | Some b \<Rightarrow>
               (\<exists>l. (b, l) \<in> set (allocations s) \<and> p \<in> set l) \<and>
               (\<forall>(b', l') \<in> set (allocations s). p \<in> set l' \<longrightarrow> b' = b)"
      if pr: "(p, r) \<in> set out" for p r
    proof (cases r)
      case None
      have "p \<notin> set (concat (map snd (allocations s)))"
      proof
        assume "p \<in> set (concat (map snd (allocations s)))"
        then obtain b' l' where "(b', l') \<in> set (allocations s)" "p \<in> set l'" by auto
        from in_list [OF this] have "(p, Some b') \<in> set out" .
        from eq_key_imp_eq_value [OF dist pr this] None show False by simp
      qed
      with None show ?thesis by simp
    next
      case (Some b)
      with pr have mem: "(p, Some b) \<in> set out" by simp
      from loop_outcome_keys [OF loop mem] have "b \<in> set (map fst ns)"
        by (simp add: ProcessAllocator_init_def)
      then obtain x where x: "x \<in> set ns" "fst x = b" by auto
      then have "(b, map fst (filter (\<lambda>y. snd y = Some b) out)) \<in> set (allocations s)"
        unfolding entries by force
      moreover have "p \<in> set (map fst (filter (\<lambda>y. snd y = Some b) out))"
        using mem by force
      ultimately have ex: "\<exists>l. (b, l) \<in> set (allocations s) \<and> p \<in> set l" by blast
      have "b' = b" if "(b', l') \<in> set (allocations s)" "p \<in> set l'" for b' l'
      proof -
        from in_list [OF that] have "(p, Some b') \<in> set out" .
        from eq_key_imp_eq_value [OF dist this mem] show ?thesis by simp
      qed
      with ex Some show ?thesis by auto
    qed
    from d each show ?thesis by blast
  qed
  from loop batch lists parts sizes once show ?thesis
    unfolding allocate_processes_def by blast
qed

theorem placement_partition_witness:
  "\<exists>s out. allocate_processes (ProcessAllocator_init LoadBalancer_nodes)
              generate_sample_processes = Inr (s, out) \<and>
     mset (concat (map snd (allocations s))) = mset (placed out) \<and>
     length (placed out) + length (unplaced out) = 10 \<and>
     distinct (concat (map snd (allocations s)))"
proof -
  have keys: "distinct (map fst LoadBalancer_nodes)"
    by (simp add: LoadBalancer_nodes_def)
  have batch: "distinct generate_sample_processes"
    by (simp add: generate_sample_processes_def)
  have size: "length generate_sample_processes = 10"
    by (simp add: generate_sample_processes_def)
  from placement_partition [OF keys, of generate_sample_processes] batch size
  show ?thesis by auto
qed

subsection \<open>What a commit changes\<close>

lemma one_entry_of_key:
  "distinct (map fst xs) \<Longrightarrow> b \<in> set (map fst xs) \<Longrightarrow>
     length (filter (\<lambda>(k, v). k = b) xs) = 1"
proof (induction xs)
  case Nil
  then show ?case by simp
next
  case (Cons x xs)
  show ?case
  proof (cases "fst x = b")
    case True
    with Cons.prems have "b \<notin> set (map fst xs)" by auto
    then have "filter (\<lambda>(k, v). k = b) xs = []"
      by (force simp: filter_empty_conv)
    with True show ?thesis by (simp add: case_prod_unfold)
  next
    case False
    with Cons show ?thesis by (auto simp: case_prod_unfold)
  qed
qed

lemma step_static:
  assumes "allocate_single_process self p = Inr (self', r)"
  shows "list_all2 (\<lambda>(k, n) (k', n'). k' = k \<and> same_static n n') (nodes self) (nodes self')"
  using step_cases [OF assms]
proof (elim disjE conjE exE)
  assume "self' = self"
  then show ?thesis by (simp add: list_all2_same case_prod_unfold same_static_def)
next
  fix b n
  assume "nodes self' = commit b p (nodes self)"
  then show ?thesis
    by (simp add: commit_def list_all2_map2 list_all2_same case_prod_unfold same_static_def)
qed

lemma loop_static:
  assumes loop: "allocate_loop self ps = Inr (s, out)"
  shows "list_all2 (\<lambda>(k, n) (k', n'). k' = k \<and> same_static n n') (nodes self) (nodes s)"
proof -
  let ?R = "\<lambda>(k :: string, n) (k', n'). k' = k \<and> same_static n n'"
  show ?thesis
  proof (rule loop_invariant [OF loop, where I = "\<lambda>a. list_all2 ?R (nodes self) (nodes a)"])
    show "list_all2 ?R (nodes self) (nodes self)"
      by (simp add: list_all2_same case_prod_unfold same_static_def)
  next
    fix a p a' r
    assume a: "list_all2 ?R (nodes self) (nodes a)"
      and step: "allocate_single_process a p = Inr (a', r)"
    from step_static [OF step] have "list_all2 ?R (nodes a) (nodes a')" .
    with a show "list_all2 ?R (nodes self) (nodes a')"
      by (rule list_all2_trans [rotated]) (auto simp: same_static_def)
  qed
qed

lemma loop_lists_grow:
  assumes loop: "allocate_loop self ps = Inr (s, out)"
  shows "list_all2 (\<lambda>(k, l) (k', l'). k' = k \<and> prefix l l') (allocations self) (allocations s)"
  unfolding loop_allocations [OF loop]
  by (simp add: list_all2_map2 list_all2_same case_prod_unfold)

text \<open>
  C6 (frame, no retroactive change). When a call of \<^verbatim>\<open>_allocate_single_process\<close>
  returns a key, the registry after it has the same keys in the same order; the node
  under the returned key is the node it was with the workload's requirements added to
  \<open>cpu\<close> and \<open>memory\<close> and every other field as it was, and the node under any other
  key is as it was; the allocation list under the returned key is the list it was with
  the workload added at its end, and every other list is as it was. The returned key
  is a key of the registry and of the allocation map, and where these have no repeated
  key it stands for one entry. For the loop over any list of workloads, from any
  allocator: every node keeps its \<open>name\<close>, \<open>latency\<close>, \<open>throughput\<close>, \<open>packet_loss\<close>
  and \<open>services\<close>, and every allocation list at the start is an initial part of the
  list under the same key at the end, so what was recorded is never altered.
\<close>

theorem frame_condition:
  "(allocate_single_process self p = Inr (self', Some b) \<longrightarrow>
      list_all2 (\<lambda>(k, n) (k', n'). k' = k \<and>
          n' = (if k = b
                then n\<lparr>cpu := cpu n + cpu_requirement p,
                       memory := memory n + memory_requirement p\<rparr>
                else n))
        (nodes self) (nodes self') \<and>
      list_all2 (\<lambda>(k, l) (k', l'). k' = k \<and> l' = (if k = b then l @ [p] else l))
        (allocations self) (allocations self') \<and>
      b \<in> set (map fst (nodes self)) \<and> b \<in> set (map fst (allocations self)) \<and>
      (distinct (map fst (nodes self)) \<longrightarrow>
         length (filter (\<lambda>(k, n). k = b) (nodes self)) = 1) \<and>
      (distinct (map fst (allocations self)) \<longrightarrow>
         length (filter (\<lambda>(k, l). k = b) (allocations self)) = 1)) \<and>
   (allocate_loop self ps = Inr (s, out) \<longrightarrow>
      list_all2 (\<lambda>(k, n) (k', n'). k' = k \<and> same_static n n') (nodes self) (nodes s) \<and>
      list_all2 (\<lambda>(k, l) (k', l'). k' = k \<and> prefix l l') (allocations self) (allocations s))"
proof (intro conjI impI)
  assume step: "allocate_single_process self p = Inr (self', Some b)"
  from step_cases [OF step] obtain n
    where b: "(b, n) \<in> set (nodes self)"
      and key: "b \<in> set (map fst (allocations self))"
      and nodes': "nodes self' = commit b p (nodes self)"
      and allocs': "allocations self' =
        map (\<lambda>(nm, ps). if nm = b then (nm, ps @ [p]) else (nm, ps)) (allocations self)"
    by auto
  show "list_all2 (\<lambda>(k, n) (k', n'). k' = k \<and>
          n' = (if k = b
                then n\<lparr>cpu := cpu n + cpu_requirement p,
                       memory := memory n + memory_requirement p\<rparr>
                else n))
        (nodes self) (nodes self')"
    unfolding nodes' commit_def
    by (simp add: list_all2_map2 list_all2_same case_prod_unfold)
  show "list_all2 (\<lambda>(k, l) (k', l'). k' = k \<and> l' = (if k = b then l @ [p] else l))
        (allocations self) (allocations self')"
    unfolding allocs'
    by (simp add: list_all2_map2 list_all2_same case_prod_unfold)
  from b show in_nodes: "b \<in> set (map fst (nodes self))" by force
  from key show "b \<in> set (map fst (allocations self))" .
  show "length (filter (\<lambda>(k, n). k = b) (nodes self)) = 1"
    if "distinct (map fst (nodes self))"
    using that in_nodes by (rule one_entry_of_key)
  show "length (filter (\<lambda>(k, l). k = b) (allocations self)) = 1"
    if "distinct (map fst (allocations self))"
    using that key by (rule one_entry_of_key)
next
  assume loop: "allocate_loop self ps = Inr (s, out)"
  show "list_all2 (\<lambda>(k, n) (k', n'). k' = k \<and> same_static n n') (nodes self) (nodes s)"
    by (rule loop_static [OF loop])
  show "list_all2 (\<lambda>(k, l) (k', l'). k' = k \<and> prefix l l') (allocations self) (allocations s)"
    by (rule loop_lists_grow [OF loop])
qed

theorem frame_condition_witness:
  "\<exists>self' s out.
     allocate_single_process (ProcessAllocator_init LoadBalancer_nodes) P1_Analytics =
       Inr (self', Some ''EdgeA'') \<and>
     list_all2 (\<lambda>(k, n) (k', n'). k' = k \<and>
         n' = (if k = ''EdgeA'' then n\<lparr>cpu := cpu n + 15, memory := memory n + 2\<rparr> else n))
       LoadBalancer_nodes (nodes self') \<and>
     length (filter (\<lambda>(k, n). k = ''EdgeA'') LoadBalancer_nodes) = 1 \<and>
     allocate_loop self' [P10_Monitor] = Inr (s, out) \<and>
     list_all2 (\<lambda>(k, n) (k', n'). k' = k \<and> same_static n n') (nodes self') (nodes s) \<and>
     list_all2 (\<lambda>(k, l) (k', l'). k' = k \<and> prefix l l') (allocations self') (allocations s)"
proof -
  let ?S = "ProcessAllocator_init LoadBalancer_nodes"
  have "map_sum id snd (allocate_single_process ?S P1_Analytics) = Inr (Some ''EdgeA'')"
    by code_simp
  then obtain self'
    where step: "allocate_single_process ?S P1_Analytics = Inr (self', Some ''EdgeA'')"
    by (cases "allocate_single_process ?S P1_Analytics") auto
  have "keys_agree self'"
    by (rule step_keys_agree [OF step keys_agree_init])
  from loop_total [OF this] obtain s out
    where loop: "allocate_loop self' [P10_Monitor] = Inr (s, out)" by blast
  have keys: "distinct (map fst (nodes ?S))"
    by (simp add: ProcessAllocator_init_def LoadBalancer_nodes_def)
  have req: "cpu_requirement P1_Analytics = 15" "memory_requirement P1_Analytics = 2"
    by (simp_all add: P1_Analytics_def)
  have reg: "nodes ?S = LoadBalancer_nodes" by (simp add: ProcessAllocator_init_def)
  from frame_condition [of ?S P1_Analytics self' "''EdgeA''"] step keys
  have "list_all2 (\<lambda>(k, n) (k', n'). k' = k \<and>
         n' = (if k = ''EdgeA'' then n\<lparr>cpu := cpu n + 15, memory := memory n + 2\<rparr> else n))
       LoadBalancer_nodes (nodes self')"
    and "length (filter (\<lambda>(k, n). k = ''EdgeA'') LoadBalancer_nodes) = 1"
    unfolding req reg by blast+
  moreover from frame_condition [of self' _ _ _ "[P10_Monitor]" s out] loop
  have "list_all2 (\<lambda>(k, n) (k', n'). k' = k \<and> same_static n n') (nodes self') (nodes s)"
    and "list_all2 (\<lambda>(k, l) (k', l'). k' = k \<and> prefix l l') (allocations self') (allocations s)"
    by blast+
  ultimately show ?thesis using step loop by blast
qed

subsection \<open>The order of the attempts\<close>

lemma sorted_processes_descending:
  assumes "i < length (sorted_processes ps)" and "j < length (sorted_processes ps)"
    and "priority (sorted_processes ps ! j) < priority (sorted_processes ps ! i)"
  shows "i < j"
proof (rule ccontr)
  assume "\<not> i < j"
  then have "j \<le> i" by simp
  have "sorted (map (\<lambda>p. - priority p) (sorted_processes ps))"
    unfolding sorted_processes_def by (rule sorted_sort_key)
  from sorted_nth_mono [OF this \<open>j \<le> i\<close>] assms(1,2)
  have "- priority (sorted_processes ps ! j) \<le> - priority (sorted_processes ps ! i)"
    by simp
  with assms(3) show False by simp
qed

lemma sorted_processes_stable:
  "filter (\<lambda>p. priority p = k) (sorted_processes ps) = filter (\<lambda>p. priority p = k) ps"
proof -
  have "filter (\<lambda>p. - priority p = - k) (sort_key (\<lambda>p. - priority p) ps) =
        filter (\<lambda>p. - priority p = - k) ps"
    by (rule sort_key_stable)
  then show ?thesis by (simp add: sorted_processes_def)
qed

lemma sorted_processes_cut:
  assumes "sorted_processes ps = before @ p # after"
  shows "(\<forall>q \<in> set before. priority p \<le> priority q) \<and>
         (\<forall>q \<in> set after. priority q \<le> priority p)"
proof -
  have "sorted (map (\<lambda>p. - priority p) (sorted_processes ps))"
    unfolding sorted_processes_def by (rule sorted_sort_key)
  then have "sorted (map (\<lambda>p. - priority p) before @
                     - priority p # map (\<lambda>p. - priority p) after)"
    by (simp add: assms)
  then show ?thesis by (auto simp: sorted_append)
qed

lemma snoc_eq_two: "xs @ [r] = [a, b] \<longleftrightarrow> xs = [a] \<and> r = b"
  by (cases xs) auto

text \<open>
  C4 (priority ordering). For every registry and every batch, the pass of a new
  allocator returns without an error and attempts the workloads in the order of the
  sorted batch: the attempts are the workloads of the batch, each as often as it occurs
  there; whenever the workload of one attempt has a higher priority than the workload
  of another, the first attempt comes strictly before the second; and for each priority
  the workloads of that priority are attempted in the order in which the batch lists
  them. The order is the order in time: for each workload of the sorted batch, the
  workloads before it have at least its priority and those after it at most its
  priority; the loop over the workloads before it returns an allocator, the attempt for
  the workload is the call of \<^verbatim>\<open>_allocate_single_process\<close> on that allocator, the loop
  over the workloads after it starts from the allocator this call returns, and the
  pass returns the allocator so reached with the outcomes in this order.
\<close>

theorem priority_ordering:
  "(\<exists>s out. allocate_processes (ProcessAllocator_init ns) ps = Inr (s, out) \<and>
      map fst out = sorted_processes ps \<and>
      mset (map fst out) = mset ps \<and>
      (\<forall>i j. i < length out \<and> j < length out \<and>
             priority (fst (out ! j)) < priority (fst (out ! i)) \<longrightarrow> i < j) \<and>
      (\<forall>k. filter (\<lambda>p. priority p = k) (map fst out) = filter (\<lambda>p. priority p = k) ps)) \<and>
   (\<forall>before p after. sorted_processes ps = before @ p # after \<longrightarrow>
      (\<forall>q \<in> set before. priority p \<le> priority q) \<and>
      (\<forall>q \<in> set after. priority q \<le> priority p) \<and>
      (\<exists>s1 out1 s2 r s out3.
         allocate_loop (ProcessAllocator_init ns) before = Inr (s1, out1) \<and>
         map fst out1 = before \<and>
         allocate_single_process s1 p = Inr (s2, r) \<and>
         allocate_loop s2 after = Inr (s, out3) \<and>
         map fst out3 = after \<and>
         allocate_processes (ProcessAllocator_init ns) ps = Inr (s, out1 @ (p, r) # out3)))"
proof -
  from pass_total obtain s out
    where run: "allocate_processes (ProcessAllocator_init ns) ps = Inr (s, out)" by blast
  then have "allocate_loop (ProcessAllocator_init ns) (sorted_processes ps) = Inr (s, out)"
    by (simp add: allocate_processes_def)
  from loop_attempts [OF this] have attempts: "map fst out = sorted_processes ps" .
  then have batch: "mset (map fst out) = mset ps" by (simp add: sorted_processes_def)
  have len: "length out = length (sorted_processes ps)"
    using arg_cong [OF attempts, of length] by simp
  have order: "i < j"
    if "i < length out \<and> j < length out \<and>
        priority (fst (out ! j)) < priority (fst (out ! i))" for i j
  proof -
    from that have i: "i < length out" and j: "j < length out" by simp_all
    have "fst (out ! i) = map fst out ! i" "fst (out ! j) = map fst out ! j"
      using i j by simp_all
    then have "priority (sorted_processes ps ! j) < priority (sorted_processes ps ! i)"
      using that attempts by simp
    with i j len show ?thesis by (simp add: sorted_processes_descending)
  qed
  have stable: "filter (\<lambda>p. priority p = k) (map fst out) = filter (\<lambda>p. priority p = k) ps"
    for k
    unfolding attempts by (rule sorted_processes_stable)
  from run attempts batch order stable
  have whole: "\<exists>s out. allocate_processes (ProcessAllocator_init ns) ps = Inr (s, out) \<and>
      map fst out = sorted_processes ps \<and>
      mset (map fst out) = mset ps \<and>
      (\<forall>i j. i < length out \<and> j < length out \<and>
             priority (fst (out ! j)) < priority (fst (out ! i)) \<longrightarrow> i < j) \<and>
      (\<forall>k. filter (\<lambda>p. priority p = k) (map fst out) = filter (\<lambda>p. priority p = k) ps)"
    by blast
  have each: "(\<forall>q \<in> set before. priority p \<le> priority q) \<and>
      (\<forall>q \<in> set after. priority q \<le> priority p) \<and>
      (\<exists>s1 out1 s2 r s out3.
         allocate_loop (ProcessAllocator_init ns) before = Inr (s1, out1) \<and>
         map fst out1 = before \<and>
         allocate_single_process s1 p = Inr (s2, r) \<and>
         allocate_loop s2 after = Inr (s, out3) \<and>
         map fst out3 = after \<and>
         allocate_processes (ProcessAllocator_init ns) ps = Inr (s, out1 @ (p, r) # out3))"
    if cut: "sorted_processes ps = before @ p # after" for before p after
  proof -
    note prios = sorted_processes_cut [OF cut]
    have pass: "allocate_processes (ProcessAllocator_init ns) ps =
        allocate_loop (ProcessAllocator_init ns) (before @ p # after)"
      by (simp add: allocate_processes_def cut)
    from loop_cut [OF keys_agree_init, of ns before p after]
    have "\<exists>s1 out1 s2 r s out3.
         allocate_loop (ProcessAllocator_init ns) before = Inr (s1, out1) \<and>
         map fst out1 = before \<and>
         allocate_single_process s1 p = Inr (s2, r) \<and>
         allocate_loop s2 after = Inr (s, out3) \<and>
         map fst out3 = after \<and>
         allocate_processes (ProcessAllocator_init ns) ps = Inr (s, out1 @ (p, r) # out3)"
      by (simp only: pass)
    with prios show ?thesis by (simp only: simp_thms)
  qed
  from whole each show ?thesis by blast
qed

theorem priority_ordering_witness:
  "\<exists>s1 out1 s2 s out3.
     allocate_loop (ProcessAllocator_init LoadBalancer_nodes)
       (take 1 (sorted_processes generate_sample_processes)) = Inr (s1, out1) \<and>
     map snd out1 = [Some ''EdgeA''] \<and>
     allocate_single_process s1 (sorted_processes generate_sample_processes ! 1) =
       Inr (s2, Some ''EdgeA'') \<and>
     allocate_processes (ProcessAllocator_init LoadBalancer_nodes) generate_sample_processes =
       Inr (s, out1 @ (sorted_processes generate_sample_processes ! 1, Some ''EdgeA'') # out3) \<and>
     map process_id
       (map fst (out1 @ (sorted_processes generate_sample_processes ! 1, Some ''EdgeA'') # out3)) =
       [''P1_Analytics'', ''P2_RPC_Handler'', ''P4_Transaction'', ''P3_DataRepl'',
        ''P5_Recovery'', ''P6_LoadBal'', ''P8_RPC_Handler2'', ''P7_Migration'',
        ''P9_Analytics2'', ''P10_Monitor'']"
proof -
  let ?S = "ProcessAllocator_init LoadBalancer_nodes"
  let ?ps = "sorted_processes generate_sample_processes"
  have order: "map process_id ?ps =
       [''P1_Analytics'', ''P2_RPC_Handler'', ''P4_Transaction'', ''P3_DataRepl'',
        ''P5_Recovery'', ''P6_LoadBal'', ''P8_RPC_Handler2'', ''P7_Migration'',
        ''P9_Analytics2'', ''P10_Monitor'']"
    by code_simp
  have two: "map_sum id (map snd \<circ> snd) (allocate_loop ?S (take 2 ?ps)) =
      Inr [Some ''EdgeA'', Some ''EdgeA'']"
    by code_simp
  have "length generate_sample_processes = 10"
    by (simp add: generate_sample_processes_def)
  then have len: "1 < length ?ps" by (simp add: sorted_processes_def)
  have cut: "?ps = take 1 ?ps @ ?ps ! 1 # drop 2 ?ps"
    using id_take_nth_drop [OF len] by (simp add: numeral_2_eq_2)
  have take2: "take 2 ?ps = take 1 ?ps @ [?ps ! 1]"
    using take_Suc_conv_app_nth [OF len] by (simp add: numeral_2_eq_2)
  from priority_ordering [of LoadBalancer_nodes generate_sample_processes]
  have "\<forall>before p after. ?ps = before @ p # after \<longrightarrow>
      (\<forall>q \<in> set before. priority p \<le> priority q) \<and>
      (\<forall>q \<in> set after. priority q \<le> priority p) \<and>
      (\<exists>s1 out1 s2 r s out3.
         allocate_loop ?S before = Inr (s1, out1) \<and>
         map fst out1 = before \<and>
         allocate_single_process s1 p = Inr (s2, r) \<and>
         allocate_loop s2 after = Inr (s, out3) \<and>
         map fst out3 = after \<and>
         allocate_processes ?S generate_sample_processes = Inr (s, out1 @ (p, r) # out3))"
    by (rule conjunct2)
  from this [rule_format, OF cut] obtain s1 out1 s2 r s out3
    where first: "allocate_loop ?S (take 1 ?ps) = Inr (s1, out1)"
      and fst1: "map fst out1 = take 1 ?ps"
      and step: "allocate_single_process s1 (?ps ! 1) = Inr (s2, r)"
      and fst3: "map fst out3 = drop 2 ?ps"
      and run: "allocate_processes ?S generate_sample_processes =
                  Inr (s, out1 @ (?ps ! 1, r) # out3)"
    by blast
  from first step have "allocate_loop ?S (take 2 ?ps) = Inr (s2, out1 @ [(?ps ! 1, r)])"
    by (simp add: take2 loop_append)
  with two have "map snd out1 @ [r] = [Some ''EdgeA'', Some ''EdgeA'']" by simp
  then have snd1: "map snd out1 = [Some ''EdgeA'']" and r: "r = Some ''EdgeA''"
    by (simp_all add: snoc_eq_two)
  have "map fst (out1 @ (?ps ! 1, Some ''EdgeA'') # out3) = take 1 ?ps @ ?ps ! 1 # drop 2 ?ps"
    by (simp add: fst1 fst3)
  then have "map fst (out1 @ (?ps ! 1, Some ''EdgeA'') # out3) = ?ps"
    using cut by (simp only:)
  then have ids: "map process_id (map fst (out1 @ (?ps ! 1, Some ''EdgeA'') # out3)) =
       [''P1_Analytics'', ''P2_RPC_Handler'', ''P4_Transaction'', ''P3_DataRepl'',
        ''P5_Recovery'', ''P6_LoadBal'', ''P8_RPC_Handler2'', ''P7_Migration'',
        ''P9_Analytics2'', ''P10_Monitor'']"
    using order by (simp only:)
  show ?thesis
    by (rule exI [of _ s1], rule exI [of _ out1], rule exI [of _ s2], rule exI [of _ s],
        rule exI [of _ out3], intro conjI)
      (rule first snd1 step [unfolded r] run [unfolded r] ids)+
qed

subsection \<open>The placement score\<close>

text \<open>
  C2 (placement score). The scores from which the node is chosen are those of the list
  \<open>candidates\<close>: one entry for each node that passes the capacity gate, in the order of
  the registry, with the score
  \<open>load_score * 0.5 + (latency / 30) * 0.3 + bonus\<close>, where
  \<open>load_score = (cpu / 100) * 0.6 + (memory / 20) * 0.3 + (latency / 30) * 0.1\<close> and
  the bonus is 0 if one of the node's service names, in lower case, occurs in the
  workload's service type in lower case, and 0.2 otherwise. A service type that is only
  a part of a service name earns no bonus.
\<close>

theorem placement_score_formula:
  "candidates ns p =
     map (\<lambda>(nm, n).
            (nm, n,
             ((of_int (cpu n) / 100) * (6 / 10) + (memory n / 20) * (3 / 10) +
              (of_int (latency n) / 30) * (1 / 10)) * (5 / 10) +
             (of_int (latency n) / 30) * (3 / 10) +
             (if list_ex (\<lambda>svc. sublist (lower svc) (lower (service_type p))) (services n)
              then 0 else 2 / 10)))
       (filter (\<lambda>(nm, n). has_capacity n (cpu_requirement p) (memory_requirement p)) ns) \<and>
   calculate_load_score n0 =
     (of_int (cpu n0) / 100) * (6 / 10) + (memory n0 / 20) * (3 / 10) +
     (of_int (latency n0) / 30) * (1 / 10)"
proof -
  have score: "placement_score n p =
      ((of_int (cpu n) / 100) * (6 / 10) + (memory n / 20) * (3 / 10) +
       (of_int (latency n) / 30) * (1 / 10)) * (5 / 10) +
      (of_int (latency n) / 30) * (3 / 10) +
      (if list_ex (\<lambda>svc. sublist (lower svc) (lower (service_type p))) (services n)
       then 0 else 2 / 10)" for n
    by (simp add: placement_score_def calculate_load_score_def service_match_def
        list_ex_iff Let_def)
  have "candidates ns p =
     map (\<lambda>(nm, n). (nm, n, placement_score n p))
       (filter (\<lambda>(nm, n). has_capacity n (cpu_requirement p) (memory_requirement p)) ns)"
    by (rule candidates_map_filter)
  moreover have "calculate_load_score n0 =
     (of_int (cpu n0) / 100) * (6 / 10) + (memory n0 / 20) * (3 / 10) +
     (of_int (latency n0) / 30) * (1 / 10)"
    by (simp add: calculate_load_score_def Let_def)
  ultimately show ?thesis by (simp only: score)
qed

theorem placement_score_formula_witness:
  "candidates [(''EdgeA'', EdgeA)] rpc_process = [(''EdgeA'', EdgeA, 7 / 15)] \<and>
   calculate_load_score EdgeA = 1 / 3"
proof -
  have gate: "has_capacity EdgeA (cpu_requirement rpc_process) (memory_requirement rpc_process)"
    by (simp add: has_capacity_def EdgeA_def rpc_process_def)
  have no_match: "\<not> list_ex (\<lambda>svc. sublist (lower svc) (lower (service_type rpc_process)))
      (services EdgeA)"
    by code_simp
  have fields: "cpu EdgeA = 40" "memory EdgeA = 4" "latency EdgeA = 10"
    by (simp_all add: EdgeA_def)
  from placement_score_formula [of "[(''EdgeA'', EdgeA)]" rpc_process EdgeA]
  show ?thesis using gate no_match by (simp add: fields)
qed

text \<open>
  The bonus as the specification words it differs: \<^verbatim>\<open>EdgeA\<close> passes the gate for a
  workload of service type \<^verbatim>\<open>RPC\<close>, which is contained in the service name
  \<^verbatim>\<open>RPCCall\<close>; the score in the candidate list is \<open>7/15\<close>, with the bonus 0.2, where
  the worded formula gives \<open>4/15\<close>.
\<close>

theorem placement_score_counterexample:
  "has_capacity EdgeA (cpu_requirement rpc_process) (memory_requirement rpc_process) \<and>
   candidates [(''EdgeA'', EdgeA)] rpc_process = [(''EdgeA'', EdgeA, 7 / 15)] \<and>
   claimed_placement_score EdgeA rpc_process = 4 / 15"
  by code_simp

end
